theory Spec2Isabelle
  imports Complex_Main "HOL-Library.Word" "HOL-Library.Sublist" "HOL-Library.AList"
    "HOL-Library.Multiset"
begin

unbundle bit_operations_syntax

chapter \<open>The embedding\<close>

section \<open>JavaScript strings and regular expressions\<close>

text \<open>
  A JavaScript string is a sequence of UTF-16 code units. \<open>length\<close> counts code
  units, as \<^verbatim>\<open>String.prototype.length\<close> does. Source literals are plain ASCII and are
  written through \<open>ascii\<close>.
\<close>

type_synonym jsstring = "16 word list"

definition ascii :: "string \<Rightarrow> jsstring" where
  "ascii s = map of_char s"

text \<open>
  A matcher stands for a regular expression tried at one position: given the text from
  that position on, it returns the length of the match, or \<open>None\<close>. The regular
  expressions of the source are built from the combinators below. None of them needs
  backtracking into an earlier part: every greedy run is followed by something that
  cannot start with a character of the run, and every lazy run is followed by a literal
  or a lookahead.
\<close>

type_synonym matcher = "jsstring \<Rightarrow> nat option"

definition lit :: "jsstring \<Rightarrow> matcher" where
  "lit p s = (if prefix p s then Some (length p) else None)"

definition many1 :: "(16 word \<Rightarrow> bool) \<Rightarrow> matcher" where
  "many1 cls s = (case takeWhile cls s of [] \<Rightarrow> None | w \<Rightarrow> Some (length w))"

definition seq :: "matcher \<Rightarrow> matcher \<Rightarrow> matcher" where
  "seq m1 m2 s = (case m1 s of None \<Rightarrow> None
     | Some n \<Rightarrow> (case m2 (drop n s) of None \<Rightarrow> None | Some k \<Rightarrow> Some (n + k)))"

text \<open>
  \<open>lazy_star ok k\<close> is \<^verbatim>\<open>X*?\<close> followed by the rest \<open>k\<close> of the expression: the
  shortest run of characters satisfying \<open>ok\<close> after which \<open>k\<close> matches.
\<close>

fun lazy_star :: "(16 word \<Rightarrow> bool) \<Rightarrow> matcher \<Rightarrow> matcher" where
  "lazy_star ok k [] = k []"
| "lazy_star ok k (c # cs) = (case k (c # cs) of Some n \<Rightarrow> Some n
     | None \<Rightarrow> if ok c then map_option Suc (lazy_star ok k cs) else None)"

text \<open>
  \<^verbatim>\<open>text.replace(re, f)\<close> for a global expression \<open>re\<close>: matches are found left to
  right and do not overlap; after an empty match the scan moves on by one code unit.
\<close>

fun replace_all :: "matcher \<Rightarrow> (jsstring \<Rightarrow> jsstring) \<Rightarrow> jsstring \<Rightarrow> jsstring" where
  "replace_all m f [] = (case m [] of Some _ \<Rightarrow> f [] | None \<Rightarrow> [])"
| "replace_all m f (c # cs) = (case m (c # cs) of
      None \<Rightarrow> c # replace_all m f cs
    | Some 0 \<Rightarrow> f [] @ c # replace_all m f cs
    | Some (Suc n) \<Rightarrow> f (c # take n cs) @ replace_all m f (drop n cs))"

text \<open>\<^verbatim>\<open>s.includes(p)\<close>: \<open>p\<close> occurs in \<open>s\<close> as a contiguous substring.\<close>

fun js_includes :: "jsstring \<Rightarrow> jsstring \<Rightarrow> bool" where
  "js_includes [] p = (p = [])"
| "js_includes (c # cs) p = (prefix p (c # cs) \<or> js_includes cs p)"

section \<open>Content parser: entity decoding\<close>

text \<open>The table \<^verbatim>\<open>htmlEntities\<close> of \<^verbatim>\<open>decodeHtmlEntities\<close>, in source order.\<close>

definition htmlEntities :: "(jsstring \<times> jsstring) list" where
  "htmlEntities =
   [(ascii ''&amp;'', [0x26]),
    (ascii ''&lt;'', [0x3C]),
    (ascii ''&gt;'', [0x3E]),
    (ascii ''&quot;'', [0x22]),
    (ascii ''&#39;'', [0x27]),
    (ascii ''&apos;'', [0x27]),
    (ascii ''&nbsp;'', [0x20]),
    (ascii ''&aacute;'', [0xE1]),
    (ascii ''&agrave;'', [0xE0]),
    (ascii ''&atilde;'', [0xE3]),
    (ascii ''&acirc;'', [0xE2]),
    (ascii ''&eacute;'', [0xE9]),
    (ascii ''&egrave;'', [0xE8]),
    (ascii ''&etilde;'', [0x1EBD]),
    (ascii ''&ecirc;'', [0xEA]),
    (ascii ''&iacute;'', [0xED]),
    (ascii ''&igrave;'', [0xEC]),
    (ascii ''&itilde;'', [0x129]),
    (ascii ''&oacute;'', [0xF3]),
    (ascii ''&ograve;'', [0xF2]),
    (ascii ''&otilde;'', [0xF5]),
    (ascii ''&ocirc;'', [0xF4]),
    (ascii ''&uacute;'', [0xFA]),
    (ascii ''&ugrave;'', [0xF9]),
    (ascii ''&utilde;'', [0x169]),
    (ascii ''&yacute;'', [0xFD]),
    (ascii ''&ygrave;'', [0x1EF3]),
    (ascii ''&ytilde;'', [0x1EF9])]"

text \<open>The character class \<^verbatim>\<open>[a-zA-Z0-9#]\<close>.\<close>

definition is_entity_char :: "16 word \<Rightarrow> bool" where
  "is_entity_char c \<longleftrightarrow>
     (0x61 \<le> c \<and> c \<le> 0x7A) \<or> (0x41 \<le> c \<and> c \<le> 0x5A) \<or> (0x30 \<le> c \<and> c \<le> 0x39) \<or> c = 0x23"

text \<open>The expression \<^verbatim>\<open>/&[a-zA-Z0-9#]+;/\<close>.\<close>

definition entity_re :: matcher where
  "entity_re = seq (lit [0x26]) (seq (many1 is_entity_char) (lit [0x3B]))"

text \<open>The callback \<^verbatim>\<open>(entity) => htmlEntities[entity] || entity\<close>.\<close>

definition decode_entity :: "jsstring \<Rightarrow> jsstring" where
  "decode_entity entity =
     (case map_of htmlEntities entity of
        Some v \<Rightarrow> if v = [] then entity else v
      | None \<Rightarrow> entity)"

definition decodeHtmlEntities :: "jsstring \<Rightarrow> jsstring" where
  "decodeHtmlEntities text = replace_all entity_re decode_entity text"

section \<open>Content parser: preview\<close>

text \<open>Character classes of the regular expressions and of \<^verbatim>\<open>trim\<close>.\<close>

definition nl :: "16 word" where
  "nl = 0x0A"

definition is_digit :: "16 word \<Rightarrow> bool" where
  "is_digit c \<longleftrightarrow> 0x30 \<le> c \<and> c \<le> 0x39"

definition is_word_char :: "16 word \<Rightarrow> bool" where
  "is_word_char c \<longleftrightarrow>
     (0x61 \<le> c \<and> c \<le> 0x7A) \<or> (0x41 \<le> c \<and> c \<le> 0x5A) \<or> (0x30 \<le> c \<and> c \<le> 0x39) \<or> c = 0x5F"

definition is_line_terminator :: "16 word \<Rightarrow> bool" where
  "is_line_terminator c \<longleftrightarrow> c = 0x0A \<or> c = 0x0D \<or> c = 0x2028 \<or> c = 0x2029"

text \<open>\<^verbatim>\<open>.\<close> matches every code unit but a line terminator; \<^verbatim>\<open>[\s\S]\<close> matches all.\<close>

definition dot :: "16 word \<Rightarrow> bool" where
  "dot c \<longleftrightarrow> \<not> is_line_terminator c"

definition any_char :: "16 word \<Rightarrow> bool" where
  "any_char c \<longleftrightarrow> True"

definition is_whitespace :: "16 word \<Rightarrow> bool" where
  "is_whitespace c \<longleftrightarrow>
     (0x09 \<le> c \<and> c \<le> 0x0D) \<or> c = 0x20 \<or> c = 0xA0 \<or> c = 0x1680 \<or>
     (0x2000 \<le> c \<and> c \<le> 0x200A) \<or> c = 0x2028 \<or> c = 0x2029 \<or> c = 0x202F \<or>
     c = 0x205F \<or> c = 0x3000 \<or> c = 0xFEFF"

definition trim :: "jsstring \<Rightarrow> jsstring" where
  "trim s = rev (dropWhile is_whitespace (rev (dropWhile is_whitespace s)))"

text \<open>
  \<^verbatim>\<open>s.split(sep)\<close> for a non-empty separator; \<open>acc\<close> holds the current piece,
  reversed.
\<close>

fun split_acc :: "jsstring \<Rightarrow> jsstring \<Rightarrow> jsstring \<Rightarrow> jsstring list" where
  "split_acc sep acc [] = [rev acc]"
| "split_acc sep acc (c # cs) =
     (if sep \<noteq> [] \<and> prefix sep (c # cs)
      then rev acc # split_acc sep [] (drop (length sep - 1) cs)
      else split_acc sep (c # acc) cs)"

definition split :: "jsstring \<Rightarrow> jsstring \<Rightarrow> jsstring list" where
  "split sep s = split_acc sep [] s"

text \<open>
  \<^verbatim>\<open>Array.from(s)\<close>: the string iterator yields one element per code point, a
  surrogate pair as one element and a lone surrogate by itself.
\<close>

definition is_high_surrogate :: "16 word \<Rightarrow> bool" where
  "is_high_surrogate c \<longleftrightarrow> 0xD800 \<le> c \<and> c \<le> 0xDBFF"

definition is_low_surrogate :: "16 word \<Rightarrow> bool" where
  "is_low_surrogate c \<longleftrightarrow> 0xDC00 \<le> c \<and> c \<le> 0xDFFF"

fun code_points :: "jsstring \<Rightarrow> jsstring list" where
  "code_points [] = []"
| "code_points [a] = [[a]]"
| "code_points (a # b # cs) =
     (if is_high_surrogate a \<and> is_low_surrogate b then [a, b] # code_points cs
      else [a] # code_points (b # cs))"

text \<open>
  A replace with a non-global expression anchored by \<^verbatim>\<open>^\<close>: only the start of the
  text is tried.
\<close>

definition replace_at_start :: "matcher \<Rightarrow> (jsstring \<Rightarrow> jsstring) \<Rightarrow> jsstring \<Rightarrow> jsstring" where
  "replace_at_start m f s = (case m s of None \<Rightarrow> s | Some n \<Rightarrow> f (take n s) @ drop n s)"

definition remove :: "jsstring \<Rightarrow> jsstring" where
  "remove m = []"

text \<open>The lookaheads \<^verbatim>\<open>(?=\n###|\n##|$)\<close> and \<^verbatim>\<open>(?=\n##|$)\<close>.\<close>

definition ahead_h3 :: matcher where
  "ahead_h3 s = (if prefix (nl # ascii ''###'') s \<or> prefix (nl # ascii ''##'') s \<or> s = []
                 then Some 0 else None)"

definition ahead_h2 :: matcher where
  "ahead_h2 s = (if prefix (nl # ascii ''##'') s \<or> s = [] then Some 0 else None)"

text \<open>The twelve expressions of \<^verbatim>\<open>extractContentPreview\<close>, in source order.\<close>

definition frontmatter_re :: matcher where
  "frontmatter_re = seq (lit (ascii ''---'')) (lazy_star any_char (lit (ascii ''---'')))"

definition attachment_re :: matcher where
  "attachment_re =
     seq (lit (ascii ''### Attachment '')) (seq (many1 is_digit) (lazy_star any_char ahead_h3))"

definition attachments_re :: matcher where
  "attachments_re = seq (lit (ascii ''## Attachments'')) (lazy_star any_char ahead_h2)"

definition engagement_re :: matcher where
  "engagement_re = seq (lit (ascii ''## Engagement'')) (lazy_star any_char ahead_h2)"

definition line_re :: "jsstring \<Rightarrow> matcher" where
  "line_re label = seq (lit label) (lazy_star dot (lit [nl]))"

text \<open>
  \<^verbatim>\<open>/#+ [^\n]*\n/\<close>: the greedy run \<^verbatim>\<open>[^\n]*\<close> stops at the first line feed, which
  is also where the shortest run followed by a line feed stops.
\<close>

definition header_re :: matcher where
  "header_re =
     seq (many1 (\<lambda>c. c = 0x23)) (seq (lit (ascii '' '')) (lazy_star (\<lambda>c. c \<noteq> nl) (lit [nl])))"

definition footer_re :: matcher where
  "footer_re = seq (lit (ascii ''*Backed up by'')) (lazy_star dot (lit (ascii ''*'')))"

definition hashtag_re :: matcher where
  "hashtag_re = seq (lit (ascii ''#'')) (many1 is_word_char)"

definition cleanContent :: "jsstring \<Rightarrow> jsstring" where
  "cleanContent content =
     (let decodedContent = decodeHtmlEntities content;
          s1 = replace_at_start frontmatter_re remove decodedContent;
          s2 = replace_all attachment_re remove s1;
          s3 = replace_all attachments_re remove s2;
          s4 = replace_all engagement_re remove s3;
          s5 = replace_all (line_re (ascii ''**Date:**'')) remove s4;
          s6 = replace_all (line_re (ascii ''**Feed:**'')) remove s5;
          s7 = replace_all (line_re (ascii ''**Post ID:**'')) remove s6;
          s8 = replace_all (line_re (ascii ''**Author:**'')) remove s7;
          s9 = replace_all (line_re (ascii ''**Total Reactions:**'')) remove s8;
          s10 = replace_all header_re remove s9;
          s11 = replace_all footer_re remove s10;
          s12 = replace_all hashtag_re remove s11
      in trim s12)"

definition paragraphs :: "jsstring \<Rightarrow> jsstring list" where
  "paragraphs content =
     filter (\<lambda>p. length (trim p) > 0) (split [nl, nl] (cleanContent content))"

text \<open>\<^verbatim>\<open>paragraphs[0] || cleanContent\<close>.\<close>

definition firstParagraph :: "jsstring \<Rightarrow> jsstring" where
  "firstParagraph content =
     (case paragraphs content of
        [] \<Rightarrow> cleanContent content
      | p # _ \<Rightarrow> if p = [] then cleanContent content else p)"

text \<open>
  Nothing in the body of \<^verbatim>\<open>extractContentPreview\<close> raises on a string, so the
  handler of its \<^verbatim>\<open>try\<close> is not reached.
\<close>

definition extractContentPreview :: "jsstring \<Rightarrow> jsstring" where
  "extractContentPreview content =
     (let fp = firstParagraph content in
      if length fp > 200 \<and> length (code_points fp) > 200
      then concat (take 200 (code_points fp)) @ ascii ''...''
      else if fp = [] then ascii ''No content preview available.'' else fp)"

section \<open>Content parser: attachments\<close>

datatype attachment_type = Photo | Video | Link

text \<open>
  \<^verbatim>\<open>Partial<PostAttachment>\<close> while a section is read, and the attachment returned
  once its type is known.
\<close>

record partial_attachment =
  p_type :: "attachment_type option"
  p_description :: "jsstring option"
  p_url :: "jsstring option"
  p_image :: "jsstring option"

record PostAttachment =
  att_type :: attachment_type
  att_description :: "jsstring option"
  att_url :: "jsstring option"
  att_image :: "jsstring option"

definition startsWith :: "jsstring \<Rightarrow> jsstring \<Rightarrow> bool" where
  "startsWith s p = prefix p s"

definition endsWith :: "jsstring \<Rightarrow> jsstring \<Rightarrow> bool" where
  "endsWith s p = suffix p s"

definition parse_type :: "jsstring \<Rightarrow> attachment_type option" where
  "parse_type t =
     (if t = ascii ''photo'' then Some Photo
      else if t = ascii ''video'' then Some Video
      else if t = ascii ''link'' then Some Link
      else None)"

text \<open>
  One turn of the loop over the lines of a section. The line starts with the label when
  the label is removed by \<^verbatim>\<open>replace\<close>, so the replacement drops that prefix.
\<close>

definition attachment_line :: "partial_attachment \<Rightarrow> jsstring \<Rightarrow> partial_attachment" where
  "attachment_line attachment line =
     (let trimmedLine = trim line in
      if startsWith trimmedLine (ascii ''- **Type:**'') then
        (case parse_type (trim (drop (length (ascii ''- **Type:**'')) trimmedLine)) of
           Some t \<Rightarrow> attachment\<lparr>p_type := Some t\<rparr>
         | None \<Rightarrow> attachment)
      else if startsWith trimmedLine (ascii ''- **Description:**'') then
        attachment\<lparr>p_description :=
          Some (trim (drop (length (ascii ''- **Description:**'')) trimmedLine))\<rparr>
      else if startsWith trimmedLine (ascii ''- **URL:**'') then
        attachment\<lparr>p_url := Some (trim (drop (length (ascii ''- **URL:**'')) trimmedLine))\<rparr>
      else if startsWith trimmedLine (ascii ''- **Image:**'') then
        attachment\<lparr>p_image := Some (trim (drop (length (ascii ''- **Image:**'')) trimmedLine))\<rparr>
      else attachment)"

definition parseAttachmentSection :: "jsstring \<Rightarrow> PostAttachment option" where
  "parseAttachmentSection content =
     (let lines = filter (\<lambda>line. trim line \<noteq> []) (split [nl] content);
          attachment = foldl attachment_line
            \<lparr>p_type = None, p_description = None, p_url = None, p_image = None\<rparr> lines
      in case p_type attachment of
           Some t \<Rightarrow> Some \<lparr>att_type = t, att_description = p_description attachment,
                           att_url = p_url attachment, att_image = p_image attachment\<rparr>
         | None \<Rightarrow> None)"

text \<open>
  The expression \<^verbatim>\<open>/### Attachment \d+\n([\s\S]*?)(?=\n###|\n##|$)/g\<close> and the loop of
  \<^verbatim>\<open>exec\<close> calls over it. The expression starts with a literal, so no match is
  empty and each call resumes after the previous match.
\<close>

definition attachment_section_re :: matcher where
  "attachment_section_re =
     seq (lit (ascii ''### Attachment ''))
       (seq (many1 is_digit) (seq (lit [nl]) (lazy_star any_char ahead_h3)))"

fun exec_all :: "matcher \<Rightarrow> jsstring \<Rightarrow> jsstring list" where
  "exec_all m [] = []"
| "exec_all m (c # cs) = (case m (c # cs) of
      Some (Suc n) \<Rightarrow> (c # take n cs) # exec_all m (drop n cs)
    | _ \<Rightarrow> exec_all m cs)"

text \<open>The capture group: what follows the heading line inside a match.\<close>

definition section_body :: "jsstring \<Rightarrow> jsstring" where
  "section_body m = tl (dropWhile is_digit (drop (length (ascii ''### Attachment '')) m))"

definition parseAttachments :: "jsstring \<Rightarrow> PostAttachment list" where
  "parseAttachments content =
     List.map_filter (\<lambda>m. parseAttachmentSection (section_body m))
       (exec_all attachment_section_re content)"

section \<open>Content parser: documents\<close>

text \<open>
  The values front matter can hold. Numbers are integers in this model, with the
  not-a-number value apart; \<open>JObj\<close> stands for any object (a date, a list, a nested
  mapping).
\<close>

datatype jsval =
    JUndefined
  | JNull
  | JBool bool
  | JNum int
  | JNaN
  | JStr jsstring
  | JObj nat

fun truthy :: "jsval \<Rightarrow> bool" where
  "truthy JUndefined = False"
| "truthy JNull = False"
| "truthy (JBool b) = b"
| "truthy (JNum n) = (n \<noteq> 0)"
| "truthy JNaN = False"
| "truthy (JStr s) = (s \<noteq> [])"
| "truthy (JObj _) = True"

text \<open>\<^verbatim>\<open>a || b\<close>.\<close>

definition js_or :: "jsval \<Rightarrow> jsval \<Rightarrow> jsval" where
  "js_or a b = (if truthy a then a else b)"

text \<open>
  The front-matter data is an object; reading a property that is not there gives
  \<^verbatim>\<open>undefined\<close>.
\<close>

type_synonym matter_data = "jsstring \<rightharpoonup> jsval"

definition get_prop :: "matter_data \<Rightarrow> jsstring \<Rightarrow> jsval" where
  "get_prop data field = (case data field of None \<Rightarrow> JUndefined | Some v \<Rightarrow> v)"

datatype js_error = TypeError | YAMLException

text \<open>
  \<^verbatim>\<open>matter\<close> is the front-matter library (gray-matter), which is not part of the
  repository: it is a parameter of the model. It returns the data and the body, or
  raises.
\<close>

type_synonym matter_fn = "jsstring \<Rightarrow> js_error + (matter_data \<times> jsstring)"

record PostMetadata =
  title :: jsstring
  author :: jsstring
  authorId :: jsval
  date :: jsval
  feedName :: jsstring
  feedType :: jsval
  postId :: jsval
  reactions :: jsval

record Post =
  metadata :: PostMetadata
  content :: jsstring
  attachments :: "PostAttachment list"
  totalReactions :: jsval
  fileName :: jsstring
  path :: jsstring

text \<open>What the parser writes to the console.\<close>

datatype log_entry =
    Missing_required_field jsstring jsstring
  | Error_parsing jsstring js_error

definition requiredFields :: "jsstring list" where
  "requiredFields =
     [ascii ''title'', ascii ''author'', ascii ''date'', ascii ''feedName'', ascii ''postId'']"

text \<open>The loop over \<open>requiredFields\<close>: the first field whose value is falsy, if any.\<close>

fun first_missing :: "matter_data \<Rightarrow> jsstring list \<Rightarrow> jsstring option" where
  "first_missing data [] = None"
| "first_missing data (field # rest) =
     (if \<not> truthy (get_prop data field) then Some field else first_missing data rest)"

text \<open>
  \<^verbatim>\<open>decodeHtmlEntities(v)\<close> on a value read from the data: \<^verbatim>\<open>text.replace\<close> exists
  on strings only, so any other value raises a \<^verbatim>\<open>TypeError\<close>.
\<close>

definition decode_value :: "jsval \<Rightarrow> js_error + jsstring" where
  "decode_value v = (case v of JStr s \<Rightarrow> Inr (decodeHtmlEntities s) | _ \<Rightarrow> Inl TypeError)"

text \<open>
  The body of the \<^verbatim>\<open>try\<close> block: \<open>Inl\<close> is an exception on its way to the handler,
  \<open>Inr (log, result)\<close> a normal return. \<open>now_iso\<close> is
  \<^verbatim>\<open>new Date().toISOString()\<close>.
\<close>

definition parseMDXContent_try ::
  "matter_fn \<Rightarrow> jsstring \<Rightarrow> jsstring \<Rightarrow> jsstring \<Rightarrow> jsstring \<Rightarrow> js_error + (log_entry list \<times> Post option)" where
  "parseMDXContent_try matter now_iso content' file_name path' =
     (let decodedContent = decodeHtmlEntities content' in
      case matter decodedContent of
        Inl e \<Rightarrow> Inl e
      | Inr (data, markdownContent) \<Rightarrow>
          (case first_missing data requiredFields of
             Some field \<Rightarrow> Inr ([Missing_required_field field file_name], None)
           | None \<Rightarrow>
               (case decode_value (js_or (get_prop data (ascii ''title'')) (JStr (ascii ''Untitled Post''))) of
                  Inl e \<Rightarrow> Inl e
                | Inr title' \<Rightarrow>
               (case decode_value (js_or (get_prop data (ascii ''author'')) (JStr (ascii ''Unknown Author''))) of
                  Inl e \<Rightarrow> Inl e
                | Inr author' \<Rightarrow>
               (case decode_value (js_or (get_prop data (ascii ''feedName'')) (JStr (ascii ''Unknown Feed''))) of
                  Inl e \<Rightarrow> Inl e
                | Inr feedName' \<Rightarrow>
                  (let metadata' = \<lparr>title = title', author = author',
                         authorId = js_or (get_prop data (ascii ''authorId'')) (JStr (ascii ''0'')),
                         date = js_or (get_prop data (ascii ''date'')) (JStr now_iso),
                         feedName = feedName',
                         feedType = js_or (get_prop data (ascii ''feedType'')) (JStr (ascii ''unknown'')),
                         postId = js_or (get_prop data (ascii ''postId'')) (JStr file_name),
                         reactions = js_or (get_prop data (ascii ''reactions'')) (JNum 0)\<rparr>;
                       attachments' = parseAttachments markdownContent;
                       contentPreview = extractContentPreview markdownContent
                   in Inr ([], Some \<lparr>metadata = metadata', content = contentPreview,
                                     attachments = attachments',
                                     totalReactions = reactions metadata',
                                     fileName = file_name, path = path'\<rparr>)))))))"

text \<open>
  \<^verbatim>\<open>parseMDXContent\<close>: the handler turns every exception into \<^verbatim>\<open>null\<close> and an
  entry in the log. The result is the log together with the post or \<open>None\<close> for
  \<^verbatim>\<open>null\<close>.
\<close>

definition parseMDXContent ::
  "matter_fn \<Rightarrow> jsstring \<Rightarrow> jsstring \<Rightarrow> jsstring \<Rightarrow> jsstring \<Rightarrow> log_entry list \<times> Post option" where
  "parseMDXContent matter now_iso content' file_name path' =
     (case parseMDXContent_try matter now_iso content' file_name path' of
        Inl e \<Rightarrow> ([Error_parsing file_name e], None)
      | Inr r \<Rightarrow> r)"

section \<open>File names, ordering and pages\<close>

text \<open>
  The expression \<^verbatim>\<open>/^(\d{4})-(\d{2})-(\d{2})_(\d{2})-(\d{2})-(\d{2})/\<close> of
  \<^verbatim>\<open>extractDateFromFileName\<close>, tried at the start of the name.
\<close>

definition digits :: "nat \<Rightarrow> matcher" where
  "digits n s = (if n \<le> length s \<and> list_all is_digit (take n s) then Some n else None)"

definition date_re :: matcher where
  "date_re =
     seq (digits 4) (seq (lit (ascii ''-'')) (seq (digits 2) (seq (lit (ascii ''-''))
    (seq (digits 2) (seq (lit (ascii ''_'')) (seq (digits 2) (seq (lit (ascii ''-''))
    (seq (digits 2) (seq (lit (ascii ''-'')) (digits 2))))))))))"

definition number_of :: "jsstring \<Rightarrow> int" where
  "number_of ds = foldl (\<lambda>n c. 10 * n + (uint c - 48)) 0 ds"

text \<open>
  Days from 1970-01-01 to the first day of a month of the proleptic Gregorian calendar,
  and the time value in milliseconds.
\<close>

definition days_from_civil :: "int \<Rightarrow> int \<Rightarrow> int \<Rightarrow> int" where
  "days_from_civil y m d =
     (let y' = (if m \<le> 2 then y - 1 else y);
          era = y' div 400;
          yoe = y' - era * 400;
          mp = (m + 9) mod 12;
          doy = (153 * mp + 2) div 5 + d - 1;
          doe = yoe * 365 + yoe div 4 - yoe div 100 + doy
      in era * 146097 + doe - 719468)"

text \<open>
  The time value of \<^verbatim>\<open>new Date(`${year}-${month}-${day}T${hour}:${minute}:${second}Z`)\<close>,
  after the date-time format of ECMAScript: the month is 01 to 12, the day 01 to 31,
  the hour 00 to 24 (24 only as 24:00:00), minute and second 00 to 59. Any other value
  makes the date invalid: its time value is \<^verbatim>\<open>NaN\<close>, here \<open>None\<close>. A day past the
  end of its month runs into the next month (some engines reject it instead; nothing
  below depends on such a day).
\<close>

type_synonym time_value = "int option"

definition date_utc :: "int \<Rightarrow> int \<Rightarrow> int \<Rightarrow> int \<Rightarrow> int \<Rightarrow> int \<Rightarrow> time_value" where
  "date_utc year month day hour minute second =
     (if 1 \<le> month \<and> month \<le> 12 \<and> 1 \<le> day \<and> day \<le> 31 \<and>
         (hour \<le> 23 \<or> (hour = 24 \<and> minute = 0 \<and> second = 0)) \<and>
         minute \<le> 59 \<and> second \<le> 59
      then Some (((((days_from_civil year month 1 + (day - 1)) * 24 + hour) * 60 + minute) * 60
                  + second) * 1000)
      else None)"

text \<open>
  \<^verbatim>\<open>extractDateFromFileName\<close>: \<open>None\<close> is \<^verbatim>\<open>null\<close>, \<open>Some t\<close> a \<^verbatim>\<open>Date\<close> object
  with time value \<open>t\<close>. Constructing a date from a string never raises, so the handler
  is not reached.
\<close>

definition extractDateFromFileName :: "jsstring \<Rightarrow> time_value option" where
  "extractDateFromFileName file_name =
     (case date_re file_name of
        Some _ \<Rightarrow>
          Some (date_utc (number_of (take 4 file_name))
                         (number_of (take 2 (drop 5 file_name)))
                         (number_of (take 2 (drop 8 file_name)))
                         (number_of (take 2 (drop 11 file_name)))
                         (number_of (take 2 (drop 14 file_name)))
                         (number_of (take 2 (drop 17 file_name))))
      | None \<Rightarrow> None)"

text \<open>
  \<^verbatim>\<open>a.localeCompare(b)\<close>, modelled as the comparison of the code-unit sequences.
  The code calls the collation of the host, which is not part of the repository and can
  order letters of different case and punctuation the other way round; on digits, which
  is where the results below use it, both agree.
\<close>

fun localeCompare :: "jsstring \<Rightarrow> jsstring \<Rightarrow> int" where
  "localeCompare [] [] = 0"
| "localeCompare [] (y # ys) = - 1"
| "localeCompare (x # xs) [] = 1"
| "localeCompare (x # xs) (y # ys) =
     (if x < y then - 1 else if y < x then 1 else localeCompare xs ys)"

text \<open>
  The comparator of both listings. A \<^verbatim>\<open>Date\<close> object is truthy whatever its time
  value, and a difference with \<^verbatim>\<open>NaN\<close> is \<^verbatim>\<open>NaN\<close> (\<open>None\<close>).
\<close>

definition compare_names :: "jsstring \<Rightarrow> jsstring \<Rightarrow> int option" where
  "compare_names a b =
     (case (extractDateFromFileName a, extractDateFromFileName b) of
        (Some dateA, Some dateB) \<Rightarrow>
          (case (dateA, dateB) of
             (Some ta, Some tb) \<Rightarrow> Some (tb - ta)
           | _ \<Rightarrow> None)
      | _ \<Rightarrow> Some (localeCompare b a))"

text \<open>
  \<^verbatim>\<open>Array.prototype.sort\<close> with a comparator: a result that is \<^verbatim>\<open>NaN\<close> counts as
  0, and the sort is stable. It is modelled as a stable insertion sort; for a
  comparator that is a total preorder every stable sort gives this result, and for any
  other comparator ECMAScript leaves the order to the implementation.
\<close>

definition sort_compare :: "('a \<Rightarrow> 'a \<Rightarrow> int option) \<Rightarrow> 'a \<Rightarrow> 'a \<Rightarrow> int" where
  "sort_compare cmp x y = (case cmp x y of None \<Rightarrow> 0 | Some v \<Rightarrow> v)"

fun insert_sorted :: "('a \<Rightarrow> 'a \<Rightarrow> int option) \<Rightarrow> 'a \<Rightarrow> 'a list \<Rightarrow> 'a list" where
  "insert_sorted cmp x [] = [x]"
| "insert_sorted cmp x (y # ys) =
     (if sort_compare cmp x y \<le> 0 then x # y # ys else y # insert_sorted cmp x ys)"

definition js_sort :: "('a \<Rightarrow> 'a \<Rightarrow> int option) \<Rightarrow> 'a list \<Rightarrow> 'a list" where
  "js_sort cmp xs = foldr (insert_sorted cmp) xs []"

text \<open>\<^verbatim>\<open>xs.slice(start, end)\<close> on integers, with its treatment of negative indices.\<close>

definition js_slice :: "'a list \<Rightarrow> int \<Rightarrow> int \<Rightarrow> 'a list" where
  "js_slice xs start stop =
     (let len = int (length xs);
          k = (if start < 0 then max (len + start) 0 else min start len);
          final = (if stop < 0 then max (len + stop) 0 else min stop len)
      in take (nat (final - k)) (drop (nat k) xs))"

text \<open>An entry of a directory listing of the content API.\<close>

datatype entry_type = File | Dir | Symlink | Submodule

record GitHubContentsResponse =
  gh_name :: jsstring
  gh_path :: jsstring
  gh_type :: entry_type

text \<open>
  \<^verbatim>\<open>GitHubAPI.getPosts\<close> after the listing has arrived. Page and page size are
  integers here. \<open>load\<close> stands for fetching and parsing one file, \<open>None\<close> when
  either fails and the file is skipped.
\<close>

definition mdxFiles :: "GitHubContentsResponse list \<Rightarrow> GitHubContentsResponse list" where
  "mdxFiles files =
     js_sort (\<lambda>a b. compare_names (gh_name a) (gh_name b))
       (filter (\<lambda>file. gh_type file = File \<and> endsWith (gh_name file) (ascii ''.mdx'')) files)"

definition startIndex :: "int \<Rightarrow> int \<Rightarrow> int" where
  "startIndex page pageSize = (page - 1) * pageSize"

definition endIndex :: "int \<Rightarrow> int \<Rightarrow> int" where
  "endIndex page pageSize = startIndex page pageSize + pageSize"

definition paginatedFiles ::
  "GitHubContentsResponse list \<Rightarrow> int \<Rightarrow> int \<Rightarrow> GitHubContentsResponse list" where
  "paginatedFiles files page pageSize =
     js_slice (mdxFiles files) (startIndex page pageSize) (endIndex page pageSize)"

definition hasMore :: "GitHubContentsResponse list \<Rightarrow> int \<Rightarrow> int \<Rightarrow> bool" where
  "hasMore files page pageSize \<longleftrightarrow> endIndex page pageSize < int (length (mdxFiles files))"

definition getPosts ::
  "(GitHubContentsResponse \<Rightarrow> Post option) \<Rightarrow> GitHubContentsResponse list \<Rightarrow> int \<Rightarrow> int
     \<Rightarrow> Post list \<times> bool" where
  "getPosts load files page pageSize =
     (List.map_filter load (paginatedFiles files page pageSize), hasMore files page pageSize)"

text \<open>
  \<^verbatim>\<open>PostLoader.getLocalPosts\<close> after the directory has been read: the listing is a
  list of file names.
\<close>

definition localFiles :: "jsstring list \<Rightarrow> jsstring list" where
  "localFiles names =
     js_sort compare_names (filter (\<lambda>file. endsWith file (ascii ''.mdx'')) names)"

definition localPaginatedFiles :: "jsstring list \<Rightarrow> int \<Rightarrow> int \<Rightarrow> jsstring list" where
  "localPaginatedFiles names page pageSize =
     js_slice (localFiles names) (startIndex page pageSize) (endIndex page pageSize)"

definition localHasMore :: "jsstring list \<Rightarrow> int \<Rightarrow> int \<Rightarrow> bool" where
  "localHasMore names page pageSize \<longleftrightarrow> endIndex page pageSize < int (length (localFiles names))"

definition getLocalPosts ::
  "(jsstring \<Rightarrow> Post option) \<Rightarrow> jsstring list \<Rightarrow> int \<Rightarrow> int \<Rightarrow> Post list \<times> bool" where
  "getLocalPosts load names page pageSize =
     (List.map_filter load (localPaginatedFiles names page pageSize),
      localHasMore names page pageSize)"

section \<open>Persistent cache store\<close>

text \<open>
  \<^verbatim>\<open>localStorage\<close> as the cache sees it: the keys in the order of
  \<^verbatim>\<open>Object.keys\<close>, each once, and for each key what its text is to
  \<^verbatim>\<open>JSON.parse\<close>: the serialisation of an entry, a text that does not parse, or the
  empty text.
\<close>

record 'd PersistentCacheEntry =
  pc_data :: 'd
  pc_timestamp :: int
  pc_etag :: "jsstring option"
  pc_expiresAt :: int

datatype 'd item = Stored "'d PersistentCacheEntry" | Corrupt | Empty

type_synonym 'd local_storage = "(jsstring \<times> 'd item) list"

definition getItem :: "'d local_storage \<Rightarrow> jsstring \<Rightarrow> 'd item option" where
  "getItem store k = map_of store k"

definition setItem :: "'d local_storage \<Rightarrow> jsstring \<Rightarrow> 'd item \<Rightarrow> 'd local_storage" where
  "setItem store k v = AList.update k v store"

definition removeItem :: "'d local_storage \<Rightarrow> jsstring \<Rightarrow> 'd local_storage" where
  "removeItem store k = AList.delete k store"

definition cache_prefix :: jsstring where
  "cache_prefix = ascii ''feed-watcher-cache:''"

definition maxSize :: nat where
  "maxSize = 50"

definition defaultTTL :: int where
  "defaultTTL = 30 * 60 * 1000"

definition getKey :: "jsstring \<Rightarrow> jsstring" where
  "getKey key = cache_prefix @ key"

text \<open>The entries \<^verbatim>\<open>cleanup\<close> collects: the cache keys whose text parses.\<close>

definition collect_entries :: "'d local_storage \<Rightarrow> (jsstring \<times> 'd PersistentCacheEntry) list" where
  "collect_entries store =
     List.map_filter (\<lambda>(k, v). case v of Stored e \<Rightarrow> Some (k, e) | _ \<Rightarrow> None)
       (filter (\<lambda>(k, v). startsWith k cache_prefix) store)"

definition remove_keys :: "jsstring list \<Rightarrow> 'd local_storage \<Rightarrow> 'd local_storage" where
  "remove_keys ks store = fold (\<lambda>k s. removeItem s k) ks store"

text \<open>
  \<^verbatim>\<open>cleanup(aggressive)\<close> at time \<open>now\<close>, in a browser (\<open>window\<close>) or not. Cache keys
  whose text does not parse are removed, then the expired entries; the entries still
  valid are sorted by \<^verbatim>\<open>a.entry.timestamp - b.entry.timestamp\<close> and the first
  \<open>toRemove\<close> of them are removed.
\<close>

definition cleanup :: "bool \<Rightarrow> int \<Rightarrow> bool \<Rightarrow> 'd local_storage \<Rightarrow> 'd local_storage" where
  "cleanup window now aggressive store =
     (if \<not> window then store
      else
        let entries = collect_entries store;
            corrupted = map fst (filter (\<lambda>(k, v). startsWith k cache_prefix \<and> v = Corrupt) store);
            expired = map fst (filter (\<lambda>(k, e). now > pc_expiresAt e) entries);
            store' = remove_keys expired (remove_keys corrupted store);
            validEntries = filter (\<lambda>(k, e). now \<le> pc_expiresAt e) entries
        in if aggressive \<or> length validEntries > maxSize
           then
             let sorted = js_sort (\<lambda>a b. Some (pc_timestamp (snd a) - pc_timestamp (snd b))) validEntries;
                 toRemove = (if aggressive then length validEntries div 2
                             else length validEntries - maxSize)
             in remove_keys (map fst (take toRemove sorted)) store'
           else store')"

text \<open>
  \<^verbatim>\<open>set(key, data, ttl, etag)\<close>. \<open>full\<close> says that \<^verbatim>\<open>localStorage.setItem\<close> raises
  (the quota is exceeded): nothing is written then and the handler runs the aggressive
  cleanup.
\<close>

definition set_entry ::
  "bool \<Rightarrow> bool \<Rightarrow> int \<Rightarrow> jsstring \<Rightarrow> 'd \<Rightarrow> int \<Rightarrow> jsstring option \<Rightarrow> 'd local_storage \<Rightarrow> 'd local_storage" where
  "set_entry window full now key data' ttl etag store =
     (if \<not> window then store
      else if full then cleanup window now True store
      else cleanup window now False
             (setItem store (getKey key)
                (Stored \<lparr>pc_data = data', pc_timestamp = now, pc_etag = etag,
                          pc_expiresAt = now + ttl\<rparr>)))"

definition delete_entry :: "bool \<Rightarrow> jsstring \<Rightarrow> 'd local_storage \<Rightarrow> 'd local_storage" where
  "delete_entry window key store = (if \<not> window then store else removeItem store (getKey key))"

text \<open>\<^verbatim>\<open>get(key)\<close>: the entry or \<open>None\<close> for \<^verbatim>\<open>null\<close>, and the storage afterwards.\<close>

definition get_entry ::
  "bool \<Rightarrow> int \<Rightarrow> jsstring \<Rightarrow> 'd local_storage \<Rightarrow> 'd PersistentCacheEntry option \<times> 'd local_storage" where
  "get_entry window now key store =
     (if \<not> window then (None, store)
      else case getItem store (getKey key) of
             None \<Rightarrow> (None, store)
           | Some Empty \<Rightarrow> (None, store)
           | Some Corrupt \<Rightarrow> (None, delete_entry window key store)
           | Some (Stored entry) \<Rightarrow>
               if now > pc_expiresAt entry then (None, delete_entry window key store)
               else (Some entry, store))"

definition clear :: "bool \<Rightarrow> 'd local_storage \<Rightarrow> 'd local_storage" where
  "clear window store =
     (if \<not> window then store
      else remove_keys (filter (\<lambda>k. startsWith k cache_prefix) (map fst store)) store)"

text \<open>
  The operations a program can apply to the storage: those of the cache, and writes and
  removals under keys outside its prefix by anything else.
\<close>

datatype 'd storage_op =
    Set bool int jsstring 'd int "jsstring option"
  | Get int jsstring
  | Delete jsstring
  | Clear
  | Other_set jsstring "'d item"
  | Other_remove jsstring

fun apply_op :: "'d local_storage \<Rightarrow> 'd storage_op \<Rightarrow> 'd local_storage" where
  "apply_op store (Set full now key d ttl etag) = set_entry True full now key d ttl etag store"
| "apply_op store (Get now key) = snd (get_entry True now key store)"
| "apply_op store (Delete key) = delete_entry True key store"
| "apply_op store Clear = clear True store"
| "apply_op store (Other_set k v) = (if startsWith k cache_prefix then store else setItem store k v)"
| "apply_op store (Other_remove k) = (if startsWith k cache_prefix then store else removeItem store k)"

definition run :: "'d storage_op list \<Rightarrow> 'd local_storage \<Rightarrow> 'd local_storage" where
  "run ops store = foldl apply_op store ops"

text \<open>The entries of the cache that are valid at time \<open>now\<close>.\<close>

definition valid_entries :: "int \<Rightarrow> 'd local_storage \<Rightarrow> (jsstring \<times> 'd PersistentCacheEntry) list" where
  "valid_entries now store = filter (\<lambda>(k, e). now \<le> pc_expiresAt e) (collect_entries store)"

section \<open>Configuration\<close>

record FeedConfig =
  repositoryUrl :: jsstring
  owner :: jsstring
  repo :: jsstring
  postsPath :: jsstring

text \<open>\<^verbatim>\<open>Partial<FeedConfig>\<close>: each property may be absent.\<close>

record PartialFeedConfig =
  p_repositoryUrl :: "jsstring option"
  p_owner :: "jsstring option"
  p_repo :: "jsstring option"
  p_postsPath :: "jsstring option"

definition defaultConfig :: FeedConfig where
  "defaultConfig =
     \<lparr>repositoryUrl = ascii ''https://github.com/monokaijs/j2team-backup'',
      owner = ascii ''monokaijs'',
      repo = ascii ''j2team-backup'',
      postsPath = ascii ''posts/j2team-community-backup''\<rparr>"

text \<open>The spread \<^verbatim>\<open>{ ...base, ...config }\<close>.\<close>

definition spread :: "FeedConfig \<Rightarrow> PartialFeedConfig \<Rightarrow> FeedConfig" where
  "spread base config =
     \<lparr>repositoryUrl = (case p_repositoryUrl config of Some v \<Rightarrow> v | None \<Rightarrow> repositoryUrl base),
      owner = (case p_owner config of Some v \<Rightarrow> v | None \<Rightarrow> owner base),
      repo = (case p_repo config of Some v \<Rightarrow> v | None \<Rightarrow> repo base),
      postsPath = (case p_postsPath config of Some v \<Rightarrow> v | None \<Rightarrow> postsPath base)\<rparr>"

text \<open>
  The expression \<^verbatim>\<open>/github\.com\/([^\/]+)\/([^\/]+)/\<close>, and \<^verbatim>\<open>url.match\<close> with
  it: the first position of the text at which it matches.
\<close>

definition not_slash :: "16 word \<Rightarrow> bool" where
  "not_slash c \<longleftrightarrow> c \<noteq> 0x2F"

definition github_re :: matcher where
  "github_re =
     seq (lit (ascii ''github.com/'')) (seq (many1 not_slash) (seq (lit (ascii ''/'')) (many1 not_slash)))"

fun first_match :: "matcher \<Rightarrow> jsstring \<Rightarrow> jsstring option" where
  "first_match m [] = (case m [] of Some _ \<Rightarrow> Some [] | None \<Rightarrow> None)"
| "first_match m (c # cs) = (case m (c # cs) of Some _ \<Rightarrow> Some (c # cs) | None \<Rightarrow> first_match m cs)"

text \<open>\<^verbatim>\<open>repo.replace(/\.git$/, '')\<close>.\<close>

definition strip_git :: "jsstring \<Rightarrow> jsstring" where
  "strip_git r = (if endsWith r (ascii ''.git'') then take (length r - 4) r else r)"

definition parseRepositoryUrl :: "jsstring \<Rightarrow> (jsstring \<times> jsstring) option" where
  "parseRepositoryUrl url =
     (case first_match github_re url of
        Some rest \<Rightarrow>
          (let after_host = drop (length (ascii ''github.com/'')) rest;
               owner' = takeWhile not_slash after_host;
               repo' = takeWhile not_slash (drop (length owner' + 1) after_host)
           in Some (owner', strip_git repo'))
      | None \<Rightarrow> None)"

definition validateRepositoryUrl :: "jsstring \<Rightarrow> bool" where
  "validateRepositoryUrl url \<longleftrightarrow> parseRepositoryUrl url \<noteq> None"

text \<open>
  What \<^verbatim>\<open>localStorage\<close> holds under \<^verbatim>\<open>feed-watcher-config\<close>: nothing, the
  serialisation of a configuration, or a text that does not parse.
\<close>

datatype config_item = Config_json PartialFeedConfig | Config_corrupt

definition getConfig :: "bool \<Rightarrow> config_item option \<Rightarrow> FeedConfig" where
  "getConfig window stored =
     (if \<not> window then defaultConfig
      else case stored of
             Some (Config_json config) \<Rightarrow> spread defaultConfig config
           | Some Config_corrupt \<Rightarrow> defaultConfig
           | None \<Rightarrow> defaultConfig)"

definition to_json :: "FeedConfig \<Rightarrow> PartialFeedConfig" where
  "to_json c =
     \<lparr>p_repositoryUrl = Some (repositoryUrl c), p_owner = Some (owner c),
      p_repo = Some (repo c), p_postsPath = Some (postsPath c)\<rparr>"

text \<open>
  \<^verbatim>\<open>saveConfig(config)\<close>: the content of the configuration key afterwards. \<open>full\<close> says
  that \<^verbatim>\<open>localStorage.setItem\<close> raises; the handler only logs.
\<close>

definition saveConfig :: "bool \<Rightarrow> bool \<Rightarrow> PartialFeedConfig \<Rightarrow> config_item option \<Rightarrow> config_item option" where
  "saveConfig window full config stored =
     (if \<not> window then stored
      else
        let currentConfig = getConfig window stored;
            newConfig = spread currentConfig config;
            newConfig' =
              (case p_repositoryUrl config of
                 Some url \<Rightarrow>
                   if url \<noteq> [] then
                     (case parseRepositoryUrl url of
                        Some (owner', repo') \<Rightarrow> newConfig\<lparr>owner := owner', repo := repo'\<rparr>
                      | None \<Rightarrow> newConfig)
                   else newConfig
               | None \<Rightarrow> newConfig)
        in if full then stored else Some (Config_json (to_json newConfig')))"

definition resetConfig :: "bool \<Rightarrow> config_item option \<Rightarrow> config_item option" where
  "resetConfig window stored = (if \<not> window then stored else None)"

section \<open>Remote source adapter\<close>

datatype error_message =
    Rate_limit_exceeded
  | Not_found
  | Access_forbidden
  | Api_error jsstring
  | Network_error

datatype GitHubAPIError = GitHubAPIError error_message "nat option"

record 'd CacheEntry =
  ce_data :: 'd
  ce_timestamp :: int
  ce_etag :: "jsstring option"

text \<open>
  The adapter: its memory cache and rate-limit counters, together with the storage of
  the persistent cache and the list of network calls issued so far (the address and the
  \<^verbatim>\<open>If-None-Match\<close> header of each).
\<close>

record 'd GitHubAPI =
  memory :: "jsstring \<rightharpoonup> 'd CacheEntry"
  rateLimitRemaining :: int
  rateLimitReset :: int
  localStorage :: "'d local_storage"
  requests :: "(jsstring \<times> jsstring option) list"

text \<open>
  A response: the rate-limit headers are given as the numbers \<^verbatim>\<open>parseInt\<close> reads from
  them (\<open>None\<close> when the header is absent); \<open>r_json\<close> is \<open>None\<close> when the body is not
  JSON.
\<close>

record 'd response =
  r_status :: nat
  r_statusText :: jsstring
  r_remaining :: "int option"
  r_reset :: "int option"
  r_etag :: "jsstring option"
  r_json :: "'d option"

text \<open>
  The surroundings of one call: whether there is a browser window, the time before the
  network call and the time after it, whether the storage refuses writes, and the
  network (\<open>None\<close> when \<^verbatim>\<open>fetch\<close> rejects).
\<close>

record 'd env =
  env_window :: bool
  env_now :: int
  env_later :: int
  env_full :: bool
  env_fetch :: "jsstring \<Rightarrow> jsstring option \<Rightarrow> 'd response option"

definition GITHUB_API_BASE :: jsstring where
  "GITHUB_API_BASE = ascii ''https://api.github.com''"

definition CACHE_DURATION :: int where
  "CACHE_DURATION = 5 * 60 * 1000"

definition LONG_CACHE_DURATION :: int where
  "LONG_CACHE_DURATION = 30 * 60 * 1000"

text \<open>A string that is present and truthy.\<close>

definition truthy_string :: "jsstring option \<Rightarrow> jsstring option" where
  "truthy_string s = (case s of Some t \<Rightarrow> if t = [] then None else Some t | None \<Rightarrow> None)"

definition as_cache_entry :: "'d PersistentCacheEntry \<Rightarrow> 'd CacheEntry" where
  "as_cache_entry e = \<lparr>ce_data = pc_data e, ce_timestamp = pc_timestamp e, ce_etag = pc_etag e\<rparr>"

text \<open>
  The first part of \<^verbatim>\<open>makeRequest\<close>, up to the rate-limit check: the two cache tiers.
  The result is the data of a hit, if any, the entry the persistent cache returned, and
  the adapter afterwards.
\<close>

definition cache_lookup ::
  "'d env \<Rightarrow> jsstring \<Rightarrow> int \<Rightarrow> 'd GitHubAPI
     \<Rightarrow> 'd option \<times> 'd PersistentCacheEntry option \<times> 'd GitHubAPI" where
  "cache_lookup env endpoint duration st =
     (let url = GITHUB_API_BASE @ endpoint;
          cacheKey = ascii ''api:'' @ endpoint;
          memory_hit = (case memory st url of
                          Some cached \<Rightarrow>
                            if env_now env - ce_timestamp cached < duration then Some cached else None
                        | None \<Rightarrow> None)
      in case memory_hit of
           Some cached \<Rightarrow> (Some (ce_data cached), None, st)
         | None \<Rightarrow>
             (case get_entry (env_window env) (env_now env) cacheKey (localStorage st) of
                (persistentEntry, storage') \<Rightarrow>
                  (case persistentEntry of
                     Some e \<Rightarrow>
                       if env_now env - pc_timestamp e < duration
                       then (Some (pc_data e), persistentEntry,
                             st\<lparr>localStorage := storage',
                                memory := (memory st)(url \<mapsto> as_cache_entry e)\<rparr>)
                       else (None, persistentEntry, st\<lparr>localStorage := storage'\<rparr>)
                   | None \<Rightarrow> (None, None, st\<lparr>localStorage := storage'\<rparr>))))"

text \<open>The \<^verbatim>\<open>try\<close> block of \<^verbatim>\<open>makeRequest\<close>: the network call and what follows it.\<close>

definition fetch_fresh ::
  "'d env \<Rightarrow> jsstring \<Rightarrow> int \<Rightarrow> 'd PersistentCacheEntry option \<Rightarrow> 'd GitHubAPI
     \<Rightarrow> (GitHubAPIError + 'd) \<times> 'd GitHubAPI" where
  "fetch_fresh env endpoint duration persistentEntry st =
     (let url = GITHUB_API_BASE @ endpoint;
          cacheKey = ascii ''api:'' @ endpoint;
          cachedEntry = (case memory st url of
                           Some c \<Rightarrow> Some c
                         | None \<Rightarrow> map_option as_cache_entry persistentEntry);
          if_none_match = (case cachedEntry of Some c \<Rightarrow> truthy_string (ce_etag c) | None \<Rightarrow> None);
          st2 = st\<lparr>requests := requests st @ [(url, if_none_match)]\<rparr>
      in case env_fetch env url if_none_match of
           None \<Rightarrow> (Inl (GitHubAPIError Network_error None), st2)
         | Some response \<Rightarrow>
             (let st3 = st2\<lparr>rateLimitRemaining := (case r_remaining response of Some n \<Rightarrow> n | None \<Rightarrow> 60),
                             rateLimitReset := (case r_reset response of Some n \<Rightarrow> n | None \<Rightarrow> 0)\<rparr>
              in case (r_status response = 304, cachedEntry) of
                   (True, Some c) \<Rightarrow>
                     (Inr (ce_data c),
                      case memory st url of
                        Some m \<Rightarrow> st3\<lparr>memory := (memory st3)(url \<mapsto> m\<lparr>ce_timestamp := env_later env\<rparr>)\<rparr>
                      | None \<Rightarrow> st3)
                 | _ \<Rightarrow>
                     if \<not> (200 \<le> r_status response \<and> r_status response \<le> 299) then
                       (Inl (if r_status response = 404 then GitHubAPIError Not_found (Some 404)
                             else if r_status response = 403 then GitHubAPIError Access_forbidden (Some 403)
                             else GitHubAPIError (Api_error (r_statusText response))
                                    (Some (r_status response))),
                        st3)
                     else
                       (case r_json response of
                          None \<Rightarrow> (Inl (GitHubAPIError Network_error None), st3)
                        | Some data' \<Rightarrow>
                            (Inr data',
                             st3\<lparr>memory := (memory st3)(url \<mapsto>
                                    \<lparr>ce_data = data', ce_timestamp = env_later env,
                                     ce_etag = truthy_string (r_etag response)\<rparr>),
                                 localStorage :=
                                   set_entry (env_window env) (env_full env) (env_later env) cacheKey
                                     data' duration (truthy_string (r_etag response))
                                     (localStorage st3)\<rparr>))))"

text \<open>
  \<^verbatim>\<open>makeRequest(endpoint, cacheDuration)\<close>: the result or the error raised, and the
  adapter afterwards. \<open>duration_of\<close> is \<^verbatim>\<open>cacheDuration || this.CACHE_DURATION\<close>.
\<close>

definition duration_of :: "int option \<Rightarrow> int" where
  "duration_of cacheDuration =
     (case cacheDuration of
        Some d \<Rightarrow> if d = 0 then CACHE_DURATION else d
      | None \<Rightarrow> CACHE_DURATION)"

definition makeRequest ::
  "'d env \<Rightarrow> jsstring \<Rightarrow> int option \<Rightarrow> 'd GitHubAPI \<Rightarrow> (GitHubAPIError + 'd) \<times> 'd GitHubAPI" where
  "makeRequest env endpoint cacheDuration st =
     (let duration = duration_of cacheDuration
      in case cache_lookup env endpoint duration st of
           (Some cached_data, _, st1) \<Rightarrow> (Inr cached_data, st1)
         | (None, persistentEntry, st1) \<Rightarrow>
             if rateLimitRemaining st1 \<le> 1 \<and> env_now env < rateLimitReset st1 * 1000
             then (Inl (GitHubAPIError Rate_limit_exceeded None), st1)
             else fetch_fresh env endpoint duration persistentEntry st1)"

definition getRepositoryContents ::
  "FeedConfig \<Rightarrow> 'd env \<Rightarrow> jsstring \<Rightarrow> 'd GitHubAPI \<Rightarrow> (GitHubAPIError + 'd) \<times> 'd GitHubAPI" where
  "getRepositoryContents config env path' st =
     makeRequest env
       (ascii ''/repos/'' @ owner config @ ascii ''/'' @ repo config @ ascii ''/contents/'' @ path')
       (Some CACHE_DURATION) st"

chapter \<open>Properties\<close>

section \<open>Entity decoding\<close>

lemma table_values:
  assumes "map_of htmlEntities e = Some v"
  shows "\<exists>ch. v = [ch] \<and> \<not> is_entity_char ch \<and> ch \<noteq> 0x3B \<and> (ch = 0x26 \<longrightarrow> e = ascii ''&amp;'')"
  using assms unfolding htmlEntities_def is_entity_char_def
  by (auto split: if_splits)

lemma amp_not_entity_char: "\<not> is_entity_char 0x26"
  by (simp add: is_entity_char_def)

lemma semi_not_entity_char: "\<not> is_entity_char 0x3B"
  by (simp add: is_entity_char_def)

lemma entity_re_Nil: "entity_re [] = None"
  by (simp add: entity_re_def seq_def lit_def)

lemma entity_re_Cons:
  "entity_re (c # cs) =
     (if c = 0x26 \<and> takeWhile is_entity_char cs \<noteq> [] \<and> prefix [0x3B] (dropWhile is_entity_char cs)
      then Some (Suc (Suc (length (takeWhile is_entity_char cs)))) else None)"
  by (auto simp: entity_re_def seq_def lit_def many1_def dropWhile_eq_drop split: list.splits option.splits)

lemma decode_Nil: "decodeHtmlEntities [] = []"
  by (simp add: decodeHtmlEntities_def entity_re_Nil)

lemma decode_nomatch:
  assumes "\<not> (c = 0x26 \<and> takeWhile is_entity_char cs \<noteq> [] \<and> prefix [0x3B] (dropWhile is_entity_char cs))"
  shows "decodeHtmlEntities (c # cs) = c # decodeHtmlEntities cs"
proof -
  from assms have "entity_re (c # cs) = None" by (auto simp: entity_re_Cons)
  then show ?thesis by (simp add: decodeHtmlEntities_def)
qed

lemma decode_match:
  assumes "takeWhile is_entity_char cs \<noteq> []" and r: "dropWhile is_entity_char cs = 0x3B # r"
  shows "decodeHtmlEntities (0x26 # cs) =
         decode_entity (0x26 # takeWhile is_entity_char cs @ [0x3B]) @ decodeHtmlEntities r"
proof -
  define w where "w = takeWhile is_entity_char cs"
  have cs: "cs = w @ 0x3B # r"
    using takeWhile_dropWhile_id [of is_entity_char cs] r w_def by simp
  have m: "entity_re (0x26 # cs) = Some (Suc (Suc (length w)))"
    using assms by (simp add: entity_re_Cons w_def)
  have "take (Suc (length w)) cs = w @ [0x3B]" "drop (Suc (length w)) cs = r"
    by (simp_all add: cs)
  with m show ?thesis
    by (simp add: decodeHtmlEntities_def w_def)
qed

lemma decode_entity_cases:
  "decode_entity e = e \<or> (\<exists>ch. decode_entity e = [ch] \<and> \<not> is_entity_char ch \<and> ch \<noteq> 0x3B
      \<and> (ch = 0x26 \<longrightarrow> e = ascii ''&amp;''))"
  using table_values [of e] by (auto simp: decode_entity_def split: option.splits)

lemma decode_passthrough:
  "\<forall>c\<in>set w. is_entity_char c \<Longrightarrow> decodeHtmlEntities (w @ r) = w @ decodeHtmlEntities r"
proof (induction w)
  case Nil
  then show ?case by simp
next
  case (Cons a w)
  then have "a \<noteq> 0x26" using amp_not_entity_char by auto
  then have "decodeHtmlEntities (a # w @ r) = a # decodeHtmlEntities (w @ r)"
    by (intro decode_nomatch) simp
  with Cons show ?case by simp
qed

lemma decode_head:
  assumes "\<not> is_entity_char c"
  shows "\<exists>d ds. decodeHtmlEntities (c # cs) = d # ds \<and> \<not> is_entity_char d \<and> (d = 0x3B \<longleftrightarrow> c = 0x3B)"
proof (cases "c = 0x26 \<and> takeWhile is_entity_char cs \<noteq> [] \<and> prefix [0x3B] (dropWhile is_entity_char cs)")
  case False
  then have "decodeHtmlEntities (c # cs) = c # decodeHtmlEntities cs" by (rule decode_nomatch)
  with assms show ?thesis by simp
next
  case True
  then obtain r where r: "dropWhile is_entity_char cs = 0x3B # r" by (auto simp: prefix_def)
  let ?e = "0x26 # takeWhile is_entity_char cs @ [0x3B]"
  have c: "c = 0x26" using True by simp
  have d: "decodeHtmlEntities (c # cs) = decode_entity ?e @ decodeHtmlEntities r"
    using True r decode_match [of cs r] by simp
  from decode_entity_cases [of ?e] amp_not_entity_char show ?thesis
    unfolding d by (auto simp: c)
qed

lemma decode_runs:
  "takeWhile is_entity_char (decodeHtmlEntities cs) = takeWhile is_entity_char cs \<and>
   (prefix [0x3B] (dropWhile is_entity_char (decodeHtmlEntities cs)) \<longleftrightarrow>
    prefix [0x3B] (dropWhile is_entity_char cs))"
proof -
  define w where "w = takeWhile is_entity_char cs"
  define r where "r = dropWhile is_entity_char cs"
  have cs: "cs = w @ r" by (simp add: w_def r_def)
  have w: "\<forall>c\<in>set w. is_entity_char c"
    unfolding w_def by (auto dest: set_takeWhileD)
  have d: "decodeHtmlEntities cs = w @ decodeHtmlEntities r"
    unfolding cs using w by (rule decode_passthrough)
  show ?thesis
  proof (cases r)
    case Nil
    with d w show ?thesis by (simp add: decode_Nil cs)
  next
    case (Cons c r')
    then have nc: "\<not> is_entity_char c"
      using hd_dropWhile [of is_entity_char cs] r_def by auto
    from decode_head [OF nc, of r'] obtain d' ds where
      dd: "decodeHtmlEntities (c # r') = d' # ds" "\<not> is_entity_char d'" "d' = 0x3B \<longleftrightarrow> c = 0x3B"
      by blast
    have "takeWhile is_entity_char (w @ d' # ds) = w" "dropWhile is_entity_char (w @ d' # ds) = d' # ds"
         "takeWhile is_entity_char (w @ c # r') = w" "dropWhile is_entity_char (w @ c # r') = c # r'"
      using w dd(2) nc by (simp_all add: takeWhile_append2 dropWhile_append2)
    with d dd Cons cs show ?thesis by simp
  qed
qed

lemma includes_drop: "js_includes (drop n xs) p \<Longrightarrow> js_includes xs p"
proof (induction xs arbitrary: n)
  case Nil
  then show ?case by simp
next
  case (Cons a xs)
  then show ?case by (cases n) auto
qed

lemma includes_prefix: "prefix p xs \<Longrightarrow> js_includes xs p"
  by (cases xs) auto

lemma decode_idem_no_amp:
  "\<not> js_includes x (ascii ''&amp;'') \<Longrightarrow> decodeHtmlEntities (decodeHtmlEntities x) = decodeHtmlEntities x"
proof (induction x rule: length_induct)
  case (1 x)
  show ?case
  proof (cases x)
    case Nil
    then show ?thesis by (simp add: decode_Nil)
  next
    case (Cons c cs)
    let ?w = "takeWhile is_entity_char cs"
    let ?r = "dropWhile is_entity_char cs"
    show ?thesis
    proof (cases "c = 0x26 \<and> ?w \<noteq> [] \<and> prefix [0x3B] ?r")
      case False
      have no: "\<not> js_includes cs (ascii ''&amp;'')" using 1(2) Cons by simp
      have ih: "decodeHtmlEntities (decodeHtmlEntities cs) = decodeHtmlEntities cs"
        using 1(1) no Cons by simp
      have "decodeHtmlEntities x = c # decodeHtmlEntities cs"
        unfolding Cons using False by (rule decode_nomatch)
      moreover have "decodeHtmlEntities (c # decodeHtmlEntities cs) = c # decodeHtmlEntities (decodeHtmlEntities cs)"
        using False decode_runs [of cs] by (intro decode_nomatch) simp
      ultimately show ?thesis using ih by simp
    next
      case True
      obtain r where r: "?r = 0x3B # r" using True by (auto simp: prefix_def)
      have cs: "cs = ?w @ 0x3B # r"
        using takeWhile_dropWhile_id [of is_entity_char cs] r by simp
      have c: "c = 0x26" using True by simp
      let ?e = "0x26 # ?w @ [0x3B]"
      have pe: "prefix ?e x" unfolding Cons c by (subst (2) cs) simp
      have "r = drop (Suc (length ?w)) cs" by (subst (2) cs) simp
      then have no: "\<not> js_includes r (ascii ''&amp;'')"
        using 1(2) Cons includes_drop [of "Suc (length ?w)" cs] by auto
      have "length cs = length ?w + Suc (length r)" by (subst cs) simp
      then have "length r < length x" by (simp add: Cons)
      then have ih: "decodeHtmlEntities (decodeHtmlEntities r) = decodeHtmlEntities r"
        using 1(1) no by simp
      have dx: "decodeHtmlEntities x = decode_entity ?e @ decodeHtmlEntities r"
        unfolding Cons c using True r by (intro decode_match) simp_all
      have w: "\<forall>c\<in>set ?w. is_entity_char c" by (auto dest: set_takeWhileD)
      from decode_entity_cases [of ?e] show ?thesis
      proof
        assume same: "decode_entity ?e = ?e"
        have tw: "takeWhile is_entity_char (?w @ 0x3B # decodeHtmlEntities r) = ?w"
             "dropWhile is_entity_char (?w @ 0x3B # decodeHtmlEntities r) = 0x3B # decodeHtmlEntities r"
          using w semi_not_entity_char by (simp_all add: takeWhile_append2 dropWhile_append2)
        have "decodeHtmlEntities (?e @ decodeHtmlEntities r) = decode_entity ?e @ decodeHtmlEntities (decodeHtmlEntities r)"
          using True tw decode_match [of "?w @ 0x3B # decodeHtmlEntities r" "decodeHtmlEntities r"] by simp
        with dx same ih show ?thesis by simp
      next
        assume "\<exists>ch. decode_entity ?e = [ch] \<and> \<not> is_entity_char ch \<and> ch \<noteq> 0x3B
            \<and> (ch = 0x26 \<longrightarrow> ?e = ascii ''&amp;'')"
        then obtain ch where ch: "decode_entity ?e = [ch]" "ch = 0x26 \<longrightarrow> ?e = ascii ''&amp;''"
          by blast
        have "ch \<noteq> 0x26"
        proof
          assume "ch = 0x26"
          with ch(2) pe have "prefix (ascii ''&amp;'') x" by simp
          then show False using 1(2) includes_prefix by blast
        qed
        then have "decodeHtmlEntities (ch # decodeHtmlEntities r) = ch # decodeHtmlEntities (decodeHtmlEntities r)"
          by (intro decode_nomatch) simp
        with dx ch(1) ih show ?thesis by simp
      qed
    qed
  qed
qed

text \<open>
  Claim C3, as stated: \<open>decodeHtmlEntities\<close> is idempotent on every string. It is
  not: the scan is a single pass, so \<^verbatim>\<open>&amp;lt;\<close> decodes to \<^verbatim>\<open>&lt;\<close>, and
  decoding that again gives \<^verbatim>\<open><\<close>.
\<close>

theorem decodeHtmlEntities_not_idempotent:
  "decodeHtmlEntities (decodeHtmlEntities (ascii ''&amp;lt;'')) \<noteq> decodeHtmlEntities (ascii ''&amp;lt;'')"
  by code_simp

text \<open>
  Claim C3, amended: on every string in which \<^verbatim>\<open>&amp;\<close> does not occur, decoding
  twice gives the same text as decoding once. (Only the entry \<^verbatim>\<open>&amp;\<close> of the table
  produces a character that can start a new entity.)
\<close>

theorem decodeHtmlEntities_idempotent_without_amp:
  assumes "\<not> js_includes x (ascii ''&amp;'')"
  shows "decodeHtmlEntities (decodeHtmlEntities x) = decodeHtmlEntities x"
  using assms by (rule decode_idem_no_amp)

theorem decodeHtmlEntities_idempotent_without_amp_witness:
  "\<not> js_includes (ascii ''a &lt; b &foo; c'') (ascii ''&amp;'') \<and>
   decodeHtmlEntities (decodeHtmlEntities (ascii ''a &lt; b &foo; c'')) = ascii ''a < b &foo; c'' \<and>
   decodeHtmlEntities (ascii ''a &lt; b &foo; c'') = ascii ''a < b &foo; c''"
proof -
  have h: "\<not> js_includes (ascii ''a &lt; b &foo; c'') (ascii ''&amp;'')"
    by (simp add: ascii_def)
  have d: "decodeHtmlEntities (ascii ''a &lt; b &foo; c'') = ascii ''a < b &foo; c''"
    by code_simp
  from h d decodeHtmlEntities_idempotent_without_amp [OF h] show ?thesis by simp
qed

section \<open>Content preview\<close>

lemma concat_code_points: "concat (code_points s) = s"
  by (induction s rule: code_points.induct) auto

lemma length_code_points_le: "length (code_points s) \<le> length s"
  by (induction s rule: code_points.induct) auto

lemma code_points_take:
  "code_points (concat (take n (code_points s))) = take n (code_points s)"
proof (induction s arbitrary: n rule: code_points.induct)
  case 1
  then show ?case by simp
next
  case (2 a)
  then show ?case by (cases n) auto
next
  case (3 a b cs)
  show ?case
  proof (cases n)
    case 0
    then show ?thesis by simp
  next
    case (Suc m)
    show ?thesis
    proof (cases "is_high_surrogate a \<and> is_low_surrogate b")
      case True
      with 3(1) [of m] Suc show ?thesis by simp
    next
      case False
      have ih: "code_points (concat (take m (code_points (b # cs)))) = take m (code_points (b # cs))"
        using 3(2) [of m] False by simp
      show ?thesis
      proof (cases m)
        case 0
        with False Suc show ?thesis by simp
      next
        case (Suc k)
        have "concat (take m (code_points (b # cs))) = b # tl (concat (take m (code_points (b # cs))))"
          unfolding Suc by (cases cs) auto
        then obtain ds where ds: "concat (take m (code_points (b # cs))) = b # ds" ..
        have L: "take n (code_points (a # b # cs)) = [a] # take m (code_points (b # cs))"
          using False \<open>n = Suc m\<close> by auto
        have R: "concat (take n (code_points (a # b # cs))) = a # b # ds"
          by (simp only: L concat.simps ds append_Cons append_Nil)
        have S: "code_points (a # b # ds) = [a] # code_points (b # ds)"
          using False by auto
        have "code_points (concat (take n (code_points (a # b # cs)))) = code_points (a # b # ds)"
          by (simp only: R)
        also have "\<dots> = [a] # code_points (b # ds)" by (rule S)
        also have "\<dots> = [a] # take m (code_points (b # cs))"
          using ih by (simp only: ds)
        also have "\<dots> = take n (code_points (a # b # cs))" by (simp only: L)
        finally show ?thesis .
      qed
    qed
  qed
qed

lemma code_points_append:
  assumes "ys = [] \<or> \<not> is_low_surrogate (hd ys)"
  shows "code_points (xs @ ys) = code_points xs @ code_points ys"
  using assms
proof (induction xs rule: code_points.induct)
  case 1
  then show ?case by simp
next
  case (2 a)
  then show ?case by (cases ys) auto
next
  case (3 a b cs)
  then show ?case by auto
qed

lemma code_points_ellipsis: "code_points (ascii ''...'') = [[0x2E], [0x2E], [0x2E]]"
  by (simp add: ascii_def is_high_surrogate_def)

lemma not_low_ellipsis: "\<not> is_low_surrogate (hd (ascii ''...''))"
  by (simp add: ascii_def is_low_surrogate_def)

lemma truncated_length:
  assumes "200 < length (code_points fp)"
  shows "length (code_points (concat (take 200 (code_points fp)) @ ascii ''...'')) = 203"
proof -
  have "code_points (concat (take 200 (code_points fp)) @ ascii ''...'') =
        take 200 (code_points fp) @ code_points (ascii ''...'')"
    using not_low_ellipsis by (simp add: code_points_append code_points_take)
  with assms show ?thesis by (simp add: code_points_ellipsis)
qed

lemma preview_cases:
  "extractContentPreview body =
     (if 200 < length (code_points (firstParagraph body))
      then concat (take 200 (code_points (firstParagraph body))) @ ascii ''...''
      else if firstParagraph body = [] then ascii ''No content preview available.''
      else firstParagraph body)"
proof -
  have "200 < length (code_points (firstParagraph body)) \<Longrightarrow> 200 < length (firstParagraph body)"
    using length_code_points_le [of "firstParagraph body"] by simp
  then show ?thesis by (auto simp: extractContentPreview_def Let_def)
qed

lemma fallback_length: "length (code_points (ascii ''No content preview available.'')) = 29"
  by (simp add: ascii_def is_high_surrogate_def)

lemma preview_bound: "length (code_points (extractContentPreview body)) \<le> 203"
  unfolding preview_cases using truncated_length [of "firstParagraph body"]
  by (auto simp: fallback_length)

lemma code_points_plain:
  "\<forall>c\<in>set s. \<not> is_high_surrogate c \<Longrightarrow> code_points s = map (\<lambda>c. [c]) s"
  by (induction s rule: code_points.induct) auto

lemma firstParagraph_long_a: "firstParagraph (replicate 201 0x61) = replicate 201 0x61"
  by code_simp

lemma code_points_long_a: "length (code_points (replicate 201 (0x61 :: 16 word))) = 201"
  by (subst code_points_plain) (simp_all add: is_high_surrogate_def)

text \<open>
  Claim C4, as stated: the preview never exceeds 200 code points. It does: a paragraph
  of 201 letters is cut to 200 code points and the three characters \<^verbatim>\<open>...\<close> are
  appended, which makes 203.
\<close>

theorem extractContentPreview_exceeds_200:
  "\<not> length (code_points (extractContentPreview (replicate 201 0x61))) \<le> 200"
proof -
  have "length (code_points (extractContentPreview (replicate 201 0x61))) = 203"
    unfolding preview_cases firstParagraph_long_a
    using truncated_length [of "replicate 201 0x61"] code_points_long_a by simp
  then show ?thesis by simp
qed

text \<open>
  Claim C4, amended: the preview never exceeds 203 code points. When the first
  non-empty paragraph has more than 200 code points, the preview is its first 200 code
  points followed by the marker \<^verbatim>\<open>...\<close>; otherwise it is an exact copy of that
  paragraph, or the fixed text \<^verbatim>\<open>No content preview available.\<close> when nothing is
  left after cleaning.
\<close>

theorem extractContentPreview_truncation:
  "extractContentPreview body =
     (if 200 < length (code_points (firstParagraph body))
      then concat (take 200 (code_points (firstParagraph body))) @ ascii ''...''
      else if firstParagraph body = [] then ascii ''No content preview available.''
      else firstParagraph body) \<and>
   length (code_points (concat (take 200 (code_points (firstParagraph body))))) \<le> 200 \<and>
   length (code_points (extractContentPreview body)) \<le> 203"
proof -
  have "length (code_points (concat (take 200 (code_points (firstParagraph body))))) \<le> 200"
    by (simp add: code_points_take)
  with preview_cases [of body] preview_bound [of body] show ?thesis by blast
qed

theorem extractContentPreview_truncation_witness:
  "200 < length (code_points (firstParagraph (replicate 201 0x61))) \<and>
   extractContentPreview (replicate 201 0x61) = replicate 200 0x61 @ ascii ''...'' \<and>
   length (code_points (extractContentPreview (replicate 201 0x61))) \<le> 203"
proof -
  have t: "concat (take 200 (code_points (replicate 201 (0x61 :: 16 word)))) = replicate 200 0x61"
  proof -
    have "code_points (replicate 201 (0x61 :: 16 word)) = map (\<lambda>c. [c]) (replicate 201 0x61)"
      by (rule code_points_plain) (simp add: is_high_surrogate_def)
    then have "concat (take 200 (code_points (replicate 201 (0x61 :: 16 word)))) =
               concat (replicate 200 [0x61])"
      by (simp add: take_map)
    also have "\<dots> = replicate 200 0x61"
      by (induction "200 :: nat") simp_all
    finally show ?thesis .
  qed
  note T = extractContentPreview_truncation [of "replicate 201 0x61"]
  have 1: "extractContentPreview (replicate 201 0x61) = replicate 200 0x61 @ ascii ''...''"
    using T code_points_long_a t by (simp add: firstParagraph_long_a)
  have 2: "length (code_points (extractContentPreview (replicate 201 0x61))) \<le> 203"
    using T by blast
  have 3: "200 < length (code_points (firstParagraph (replicate 201 0x61)))"
    using code_points_long_a by (simp add: firstParagraph_long_a)
  from 1 2 3 show ?thesis by blast
qed

section \<open>Required metadata fields\<close>

lemma first_missing_Some:
  "first_missing data fs = Some g \<Longrightarrow> g \<in> set fs \<and> \<not> truthy (get_prop data g)"
  by (induction fs) (auto split: if_splits)

lemma first_missing_exists:
  "f \<in> set fs \<Longrightarrow> \<not> truthy (get_prop data f) \<Longrightarrow> \<exists>g. first_missing data fs = Some g"
  by (induction fs) auto

lemma first_missing_only:
  assumes "f \<in> set fs" "\<not> truthy (get_prop data f)"
    and "\<forall>h\<in>set fs. h \<noteq> f \<longrightarrow> truthy (get_prop data h)"
  shows "first_missing data fs = Some f"
proof -
  from first_missing_exists [OF assms(1,2)] obtain g where g: "first_missing data fs = Some g" ..
  with first_missing_Some [OF g] assms(3) show ?thesis by auto
qed

lemma first_missing_cong:
  "\<forall>g\<in>set fs. truthy (get_prop d1 g) = truthy (get_prop d2 g) \<Longrightarrow>
   first_missing d1 fs = first_missing d2 fs"
  by (induction fs) auto

lemma parse_missing:
  assumes "matter (decodeHtmlEntities c) = Inr (data, body)"
    and "first_missing data requiredFields = Some g"
  shows "parseMDXContent matter now c fn p = ([Missing_required_field g fn], None)"
  using assms by (simp add: parseMDXContent_def parseMDXContent_try_def)

lemma get_prop_absent: "data f = None \<Longrightarrow> \<not> truthy (get_prop data f)"
  by (simp add: get_prop_def)

text \<open>
  Claim C5: when the front matter parses and one of the five required fields is absent,
  \<open>parseMDXContent\<close> returns \<^verbatim>\<open>null\<close> (\<open>None\<close>); nothing is raised, and the only
  other effect is one warning in the log, which names a required field that is missing.
  This holds for each of the five fields, and when the absent field is the only one
  missing the warning names it.
\<close>

theorem parseMDXContent_missing_required:
  assumes "field \<in> set requiredFields"
    and "matter (decodeHtmlEntities c) = Inr (data, body)"
    and "data field = None"
  shows "\<exists>g\<in>set requiredFields.
           parseMDXContent matter now c fn p = ([Missing_required_field g fn], None) \<and>
           ((\<forall>h\<in>set requiredFields. h \<noteq> field \<longrightarrow> truthy (get_prop data h)) \<longrightarrow> g = field)"
proof -
  have nt: "\<not> truthy (get_prop data field)" using assms(3) by (rule get_prop_absent)
  from first_missing_exists [OF assms(1) nt] obtain g
    where g: "first_missing data requiredFields = Some g" ..
  have "g \<in> set requiredFields" using first_missing_Some [OF g] by simp
  moreover have "parseMDXContent matter now c fn p = ([Missing_required_field g fn], None)"
    using assms(2) g by (rule parse_missing)
  moreover have "(\<forall>h\<in>set requiredFields. h \<noteq> field \<longrightarrow> truthy (get_prop data h)) \<longrightarrow> g = field"
    using first_missing_only [OF assms(1) nt] g by auto
  ultimately show ?thesis by blast
qed

theorem parseMDXContent_missing_required_witness:
  "ascii ''date'' \<in> set requiredFields \<and>
   (map_of [(ascii ''title'', JStr (ascii ''Hello'')), (ascii ''author'', JStr (ascii ''An'')),
            (ascii ''feedName'', JStr (ascii ''J2'')), (ascii ''postId'', JStr (ascii ''42''))])
     (ascii ''date'') = None \<and>
   map (\<lambda>h. truthy (get_prop (map_of [(ascii ''title'', JStr (ascii ''Hello'')), (ascii ''author'', JStr (ascii ''An'')),
            (ascii ''feedName'', JStr (ascii ''J2'')), (ascii ''postId'', JStr (ascii ''42''))]) h))
     requiredFields = [True, True, False, True, True] \<and>
   parseMDXContent
     (\<lambda>s. Inr (map_of [(ascii ''title'', JStr (ascii ''Hello'')), (ascii ''author'', JStr (ascii ''An'')),
            (ascii ''feedName'', JStr (ascii ''J2'')), (ascii ''postId'', JStr (ascii ''42''))], s))
     [] (ascii ''text'') (ascii ''a.mdx'') (ascii ''posts/a.mdx'')
   = ([Missing_required_field (ascii ''date'') (ascii ''a.mdx'')], None)"
proof -
  let ?d = "map_of [(ascii ''title'', JStr (ascii ''Hello'')), (ascii ''author'', JStr (ascii ''An'')),
            (ascii ''feedName'', JStr (ascii ''J2'')), (ascii ''postId'', JStr (ascii ''42''))]"
  have 1: "ascii ''date'' \<in> set requiredFields" by (simp add: requiredFields_def)
  have 2: "?d (ascii ''date'') = None" by (simp add: ascii_def)
  have 3: "\<forall>h\<in>set requiredFields. h \<noteq> ascii ''date'' \<longrightarrow> truthy (get_prop ?d h)"
    by (simp add: requiredFields_def get_prop_def ascii_def)
  have 4: "(\<lambda>s. Inr (?d, s)) (decodeHtmlEntities (ascii ''text'')) = Inr (?d, decodeHtmlEntities (ascii ''text''))"
    by simp
  have 5: "map (\<lambda>h. truthy (get_prop ?d h)) requiredFields = [True, True, False, True, True]"
    by (simp add: requiredFields_def get_prop_def ascii_def)
  from parseMDXContent_missing_required [where field = "ascii ''date''" and matter = "\<lambda>s. Inr (?d, s)"
      and c = "ascii ''text''" and data = ?d and body = "decodeHtmlEntities (ascii ''text'')"
      and now = "[]" and fn = "ascii ''a.mdx''" and p = "ascii ''posts/a.mdx''", OF 1 4 2] 3
  have "parseMDXContent (\<lambda>s. Inr (?d, s)) [] (ascii ''text'') (ascii ''a.mdx'') (ascii ''posts/a.mdx'')
        = ([Missing_required_field (ascii ''date'') (ascii ''a.mdx'')], None)"
    by blast
  with 1 2 5 show ?thesis by (intro conjI)
qed

text \<open>
  Claim C10: a required field bound to the empty string, to 0 or to \<^verbatim>\<open>false\<close> does
  not pass the check: \<open>parseMDXContent\<close> returns \<^verbatim>\<open>null\<close>, with the same log, exactly
  as it does on the document in which that field is absent.
\<close>

theorem parseMDXContent_falsy_required:
  assumes "field \<in> set requiredFields"
    and "v = JStr [] \<or> v = JNum 0 \<or> v = JBool False"
    and "matter (decodeHtmlEntities c) = Inr (data(field \<mapsto> v), body)"
    and "matter_absent (decodeHtmlEntities c) = Inr (data(field := None), body)"
  shows "snd (parseMDXContent matter now c fn p) = None \<and>
         parseMDXContent matter now c fn p = parseMDXContent matter_absent now c fn p"
proof -
  let ?d1 = "data(field \<mapsto> v)" and ?d0 = "data(field := None)"
  have nt: "\<not> truthy (get_prop ?d1 field)" using assms(2) by (auto simp: get_prop_def)
  from first_missing_exists [OF assms(1) nt] obtain g
    where g: "first_missing ?d1 requiredFields = Some g" ..
  have "\<forall>h\<in>set requiredFields. truthy (get_prop ?d1 h) = truthy (get_prop ?d0 h)"
    using assms(2) by (auto simp: get_prop_def)
  then have "first_missing ?d1 requiredFields = first_missing ?d0 requiredFields"
    by (rule first_missing_cong)
  with g have g0: "first_missing ?d0 requiredFields = Some g" by simp
  have "parseMDXContent matter now c fn p = ([Missing_required_field g fn], None)"
    using assms(3) g by (rule parse_missing)
  moreover have "parseMDXContent matter_absent now c fn p = ([Missing_required_field g fn], None)"
    using assms(4) g0 by (rule parse_missing)
  ultimately show ?thesis by simp
qed

theorem parseMDXContent_falsy_required_witness:
  "ascii ''title'' \<in> set requiredFields \<and>
   map (\<lambda>v. snd (parseMDXContent
       (\<lambda>s. Inr ((map_of [(ascii ''author'', JStr (ascii ''An'')), (ascii ''date'', JStr (ascii ''2024'')),
            (ascii ''feedName'', JStr (ascii ''J2'')), (ascii ''postId'', JStr (ascii ''42''))])
            (ascii ''title'' \<mapsto> v), s))
       [] (ascii ''text'') (ascii ''a.mdx'') (ascii ''posts/a.mdx'')))
     [JStr [], JNum 0, JBool False] = [None, None, None] \<and>
   map (\<lambda>v. parseMDXContent
       (\<lambda>s. Inr ((map_of [(ascii ''author'', JStr (ascii ''An'')), (ascii ''date'', JStr (ascii ''2024'')),
            (ascii ''feedName'', JStr (ascii ''J2'')), (ascii ''postId'', JStr (ascii ''42''))])
            (ascii ''title'' \<mapsto> v), s))
       [] (ascii ''text'') (ascii ''a.mdx'') (ascii ''posts/a.mdx'')
     = parseMDXContent
       (\<lambda>s. Inr ((map_of [(ascii ''author'', JStr (ascii ''An'')), (ascii ''date'', JStr (ascii ''2024'')),
            (ascii ''feedName'', JStr (ascii ''J2'')), (ascii ''postId'', JStr (ascii ''42''))])
            (ascii ''title'' := None), s))
       [] (ascii ''text'') (ascii ''a.mdx'') (ascii ''posts/a.mdx''))
     [JStr [], JNum 0, JBool False] = [True, True, True]"
proof -
  let ?d = "map_of [(ascii ''author'', JStr (ascii ''An'')), (ascii ''date'', JStr (ascii ''2024'')),
            (ascii ''feedName'', JStr (ascii ''J2'')), (ascii ''postId'', JStr (ascii ''42''))]"
  let ?with = "\<lambda>v. parseMDXContent (\<lambda>s. Inr (?d(ascii ''title'' \<mapsto> v), s))
               [] (ascii ''text'') (ascii ''a.mdx'') (ascii ''posts/a.mdx'')"
  let ?without = "parseMDXContent (\<lambda>s. Inr (?d(ascii ''title'' := None), s))
               [] (ascii ''text'') (ascii ''a.mdx'') (ascii ''posts/a.mdx'')"
  have 1: "ascii ''title'' \<in> set requiredFields" by (simp add: requiredFields_def)
  have P: "snd (?with v) = None \<and> ?with v = ?without"
    if v: "v = JStr [] \<or> v = JNum 0 \<or> v = JBool False" for v
  proof -
    have a: "(\<lambda>s. Inr (?d(ascii ''title'' \<mapsto> v), s)) (decodeHtmlEntities (ascii ''text''))
             = Inr (?d(ascii ''title'' \<mapsto> v), decodeHtmlEntities (ascii ''text''))"
      by (rule refl)
    have b: "(\<lambda>s. Inr (?d(ascii ''title'' := None), s)) (decodeHtmlEntities (ascii ''text''))
             = Inr (?d(ascii ''title'' := None), decodeHtmlEntities (ascii ''text''))"
      by (rule refl)
    show ?thesis
      by (rule parseMDXContent_falsy_required [where field = "ascii ''title''" and v = v
          and matter = "\<lambda>s. Inr (?d(ascii ''title'' \<mapsto> v), s)"
          and matter_absent = "\<lambda>s. Inr (?d(ascii ''title'' := None), s)"
          and data = ?d and body = "decodeHtmlEntities (ascii ''text'')", OF 1 v a b])
  qed
  have s: "snd (?with (JStr [])) = None" "snd (?with (JNum 0)) = None" "snd (?with (JBool False)) = None"
    using P by blast+
  have e: "?with (JStr []) = ?without" "?with (JNum 0) = ?without" "?with (JBool False) = ?without"
    using P by blast+
  have 2: "map (\<lambda>v. snd (?with v)) [JStr [], JNum 0, JBool False] = [None, None, None]"
    by (simp only: list.map s)
  have 3: "map (\<lambda>v. ?with v = ?without) [JStr [], JNum 0, JBool False] = [True, True, True]"
    by (simp only: list.map e refl simp_thms)
  from 1 2 3 show ?thesis by (intro conjI)
qed

section \<open>Pages and ordering\<close>

lemma slice_nonneg:
  assumes "0 \<le> a" "a \<le> b"
  shows "js_slice xs a b = take (nat (b - a)) (drop (nat a) xs)"
proof (cases "a \<le> int (length xs)")
  case True
  show ?thesis
  proof (cases "b \<le> int (length xs)")
    case True
    with assms \<open>a \<le> int (length xs)\<close> show ?thesis
      by (simp add: js_slice_def Let_def min_def)
  next
    case False
    then have "length (drop (nat a) xs) \<le> nat (b - a)" using assms by simp
    with assms True False show ?thesis
      by (simp add: js_slice_def Let_def min_def)
  qed
next
  case False
  with assms show ?thesis
    by (simp add: js_slice_def Let_def min_def)
qed

lemma page_slice:
  assumes "0 < p" "1 \<le> k"
  shows "js_slice xs (startIndex (int k) p) (endIndex (int k) p) = take (nat p) (drop ((k - 1) * nat p) xs)"
proof -
  have a: "0 \<le> startIndex (int k) p" using assms by (simp add: startIndex_def)
  have b: "startIndex (int k) p \<le> endIndex (int k) p" using assms by (simp add: endIndex_def)
  have c: "nat (startIndex (int k) p) = (k - 1) * nat p"
    using assms by (simp add: startIndex_def nat_mult_distrib of_nat_diff nat_diff_distrib)
  show ?thesis
    unfolding slice_nonneg [OF a b] c by (simp add: endIndex_def)
qed

lemma concat_pages_take:
  assumes "0 < p"
  shows "concat (map (\<lambda>k. js_slice xs (startIndex (int k) p) (endIndex (int k) p)) [1..<Suc n])
         = take (n * nat p) xs"
proof (induction n)
  case 0
  then show ?case by simp
next
  case (Suc n)
  have "js_slice xs (startIndex (int (Suc n)) p) (endIndex (int (Suc n)) p)
        = take (nat p) (drop (n * nat p) xs)"
    using page_slice [OF assms, of "Suc n" xs] by simp
  moreover have "take (Suc n * nat p) xs = take (n * nat p) xs @ take (nat p) (drop (n * nat p) xs)"
    using take_add [of "n * nat p" "nat p" xs] by (simp add: add.commute)
  ultimately show ?case using Suc by simp
qed

lemma ceil_pages_cover:
  assumes "0 < p"
  shows "length xs \<le> nat \<lceil>real (length xs) / real_of_int p\<rceil> * nat p"
proof -
  let ?c = "\<lceil>real (length xs) / real_of_int p\<rceil>"
  have "real (length xs) = (real (length xs) / real_of_int p) * real_of_int p"
    using assms by simp
  also have "\<dots> \<le> real_of_int ?c * real_of_int p"
    using assms by (intro mult_right_mono le_of_int_ceiling) simp
  finally have "real (length xs) \<le> real_of_int ?c * real_of_int p" .
  then have "int (length xs) \<le> ?c * p"
    by (metis of_int_le_iff of_int_mult of_int_of_nat_eq)
  moreover have "0 \<le> real (length xs) / real_of_int p" using assms by simp
  then have "- 1 < real (length xs) / real_of_int p" by linarith
  then have "0 \<le> ?c" by (simp add: zero_le_ceiling)
  ultimately show ?thesis using assms
    by (metis nat_int nat_mono nat_mult_distrib)
qed

lemma pages_partition:
  assumes "0 < p"
  shows "concat (map (\<lambda>k. js_slice xs (startIndex (int k) p) (endIndex (int k) p))
           [1..<Suc (nat \<lceil>real (length xs) / real_of_int p\<rceil>)]) = xs"
proof -
  have "take (nat \<lceil>real (length xs) / real_of_int p\<rceil> * nat p) xs = xs"
    using ceil_pages_cover [OF assms, of xs] by simp
  then show ?thesis by (simp only: concat_pages_take [OF assms])
qed

lemma endIndex_eq: "endIndex page p = page * p"
  by (simp add: endIndex_def startIndex_def algebra_simps)

lemma page_take_drop:
  assumes "0 < p"
  shows "js_slice xs (startIndex (int (Suc k)) p) (endIndex (int (Suc k)) p)
         = take (nat p) (drop (k * nat p) xs)"
  using page_slice [OF assms, of "Suc k" xs] by simp

text \<open>
  Claim C1: for a page size \<open>P\<close> of at least 1, every page is the slice
  \<open>[(page - 1) * P, page * P)\<close> of the sorted listing (page \<open>k + 1\<close> is what remains
  after dropping \<open>k * P\<close> entries, cut to \<open>P\<close> entries), the pages \<open>1 .. ceil(N/P)\<close>
  taken in order give back the sorted listing exactly (every position once: no
  duplicates, no gaps), and \<^verbatim>\<open>hasMore\<close> is true if and only if \<open>page * P < N\<close>. All of
  this holds for the remote and for the local listing; the posts returned for a page are
  those of its files that load.
\<close>

theorem getPosts_pages_partition:
  assumes "0 < pageSize"
  shows "concat (map (\<lambda>page. paginatedFiles files (int page) pageSize)
            [1..<Suc (nat \<lceil>real (length (mdxFiles files)) / real_of_int pageSize\<rceil>)]) = mdxFiles files \<and>
         (snd (getPosts load files page pageSize) \<longleftrightarrow> page * pageSize < int (length (mdxFiles files))) \<and>
         concat (map (\<lambda>page. localPaginatedFiles names (int page) pageSize)
            [1..<Suc (nat \<lceil>real (length (localFiles names)) / real_of_int pageSize\<rceil>)]) = localFiles names \<and>
         (snd (getLocalPosts load' names page pageSize) \<longleftrightarrow> page * pageSize < int (length (localFiles names))) \<and>
         fst (getPosts load files page pageSize) = List.map_filter load (paginatedFiles files page pageSize) \<and>
         fst (getLocalPosts load' names page pageSize) =
           List.map_filter load' (localPaginatedFiles names page pageSize) \<and>
         paginatedFiles files (int (Suc k)) pageSize =
           take (nat pageSize) (drop (k * nat pageSize) (mdxFiles files)) \<and>
         length (paginatedFiles files (int (Suc k)) pageSize) =
           min (nat pageSize) (length (mdxFiles files) - k * nat pageSize) \<and>
         localPaginatedFiles names (int (Suc k)) pageSize =
           take (nat pageSize) (drop (k * nat pageSize) (localFiles names)) \<and>
         length (localPaginatedFiles names (int (Suc k)) pageSize) =
           min (nat pageSize) (length (localFiles names) - k * nat pageSize)"
proof -
  have "concat (map (\<lambda>page. paginatedFiles files (int page) pageSize)
            [1..<Suc (nat \<lceil>real (length (mdxFiles files)) / real_of_int pageSize\<rceil>)]) = mdxFiles files"
    unfolding paginatedFiles_def by (rule pages_partition [OF assms])
  moreover have "concat (map (\<lambda>page. localPaginatedFiles names (int page) pageSize)
            [1..<Suc (nat \<lceil>real (length (localFiles names)) / real_of_int pageSize\<rceil>)]) = localFiles names"
    unfolding localPaginatedFiles_def by (rule pages_partition [OF assms])
  moreover have "snd (getPosts load files page pageSize) \<longleftrightarrow> page * pageSize < int (length (mdxFiles files))"
    by (simp add: getPosts_def hasMore_def endIndex_eq)
  moreover have "snd (getLocalPosts load' names page pageSize) \<longleftrightarrow>
      page * pageSize < int (length (localFiles names))"
    by (simp add: getLocalPosts_def localHasMore_def endIndex_eq)
  moreover have "fst (getPosts load files page pageSize) = List.map_filter load (paginatedFiles files page pageSize)"
    by (simp add: getPosts_def)
  moreover have "fst (getLocalPosts load' names page pageSize) =
      List.map_filter load' (localPaginatedFiles names page pageSize)"
    by (simp add: getLocalPosts_def)
  moreover have r: "paginatedFiles files (int (Suc k)) pageSize =
           take (nat pageSize) (drop (k * nat pageSize) (mdxFiles files))"
    unfolding paginatedFiles_def by (rule page_take_drop [OF assms])
  moreover have "length (paginatedFiles files (int (Suc k)) pageSize) =
           min (nat pageSize) (length (mdxFiles files) - k * nat pageSize)"
    unfolding r by (simp add: min.commute)
  moreover have l: "localPaginatedFiles names (int (Suc k)) pageSize =
           take (nat pageSize) (drop (k * nat pageSize) (localFiles names))"
    unfolding localPaginatedFiles_def by (rule page_take_drop [OF assms])
  moreover have "length (localPaginatedFiles names (int (Suc k)) pageSize) =
           min (nat pageSize) (length (localFiles names) - k * nat pageSize)"
    unfolding l by (simp add: min.commute)
  ultimately show ?thesis by (intro conjI)
qed

theorem getPosts_pages_partition_witness:
  "(0::int) < 2 \<and>
   mdxFiles [\<lparr>gh_name = ascii ''2024-01-01_00-00-00_b.mdx'', gh_path = ascii ''posts/b'', gh_type = File\<rparr>,
             \<lparr>gh_name = ascii ''images'', gh_path = ascii ''posts/images'', gh_type = Dir\<rparr>,
             \<lparr>gh_name = ascii ''2024-01-03_00-00-00_c.mdx'', gh_path = ascii ''posts/c'', gh_type = File\<rparr>,
             \<lparr>gh_name = ascii ''2024-01-02_00-00-00_a.mdx'', gh_path = ascii ''posts/a'', gh_type = File\<rparr>]
   = [\<lparr>gh_name = ascii ''2024-01-03_00-00-00_c.mdx'', gh_path = ascii ''posts/c'', gh_type = File\<rparr>,
      \<lparr>gh_name = ascii ''2024-01-02_00-00-00_a.mdx'', gh_path = ascii ''posts/a'', gh_type = File\<rparr>,
      \<lparr>gh_name = ascii ''2024-01-01_00-00-00_b.mdx'', gh_path = ascii ''posts/b'', gh_type = File\<rparr>] \<and>
   concat (map (\<lambda>page. paginatedFiles
             [\<lparr>gh_name = ascii ''2024-01-01_00-00-00_b.mdx'', gh_path = ascii ''posts/b'', gh_type = File\<rparr>,
              \<lparr>gh_name = ascii ''images'', gh_path = ascii ''posts/images'', gh_type = Dir\<rparr>,
              \<lparr>gh_name = ascii ''2024-01-03_00-00-00_c.mdx'', gh_path = ascii ''posts/c'', gh_type = File\<rparr>,
              \<lparr>gh_name = ascii ''2024-01-02_00-00-00_a.mdx'', gh_path = ascii ''posts/a'', gh_type = File\<rparr>]
             (int page) 2) [1..<Suc 2])
   = [\<lparr>gh_name = ascii ''2024-01-03_00-00-00_c.mdx'', gh_path = ascii ''posts/c'', gh_type = File\<rparr>,
      \<lparr>gh_name = ascii ''2024-01-02_00-00-00_a.mdx'', gh_path = ascii ''posts/a'', gh_type = File\<rparr>,
      \<lparr>gh_name = ascii ''2024-01-01_00-00-00_b.mdx'', gh_path = ascii ''posts/b'', gh_type = File\<rparr>] \<and>
   snd (getPosts (\<lambda>file. None)
             [\<lparr>gh_name = ascii ''2024-01-01_00-00-00_b.mdx'', gh_path = ascii ''posts/b'', gh_type = File\<rparr>,
              \<lparr>gh_name = ascii ''images'', gh_path = ascii ''posts/images'', gh_type = Dir\<rparr>,
              \<lparr>gh_name = ascii ''2024-01-03_00-00-00_c.mdx'', gh_path = ascii ''posts/c'', gh_type = File\<rparr>,
              \<lparr>gh_name = ascii ''2024-01-02_00-00-00_a.mdx'', gh_path = ascii ''posts/a'', gh_type = File\<rparr>]
             1 2) \<and>
   \<not> snd (getPosts (\<lambda>file. None)
             [\<lparr>gh_name = ascii ''2024-01-01_00-00-00_b.mdx'', gh_path = ascii ''posts/b'', gh_type = File\<rparr>,
              \<lparr>gh_name = ascii ''images'', gh_path = ascii ''posts/images'', gh_type = Dir\<rparr>,
              \<lparr>gh_name = ascii ''2024-01-03_00-00-00_c.mdx'', gh_path = ascii ''posts/c'', gh_type = File\<rparr>,
              \<lparr>gh_name = ascii ''2024-01-02_00-00-00_a.mdx'', gh_path = ascii ''posts/a'', gh_type = File\<rparr>]
             2 2) \<and>
   map (\<lambda>page. paginatedFiles
             [\<lparr>gh_name = ascii ''2024-01-01_00-00-00_b.mdx'', gh_path = ascii ''posts/b'', gh_type = File\<rparr>,
              \<lparr>gh_name = ascii ''images'', gh_path = ascii ''posts/images'', gh_type = Dir\<rparr>,
              \<lparr>gh_name = ascii ''2024-01-03_00-00-00_c.mdx'', gh_path = ascii ''posts/c'', gh_type = File\<rparr>,
              \<lparr>gh_name = ascii ''2024-01-02_00-00-00_a.mdx'', gh_path = ascii ''posts/a'', gh_type = File\<rparr>]
             (int page) 2) [Suc 0, Suc 1, Suc 2]
   = [[\<lparr>gh_name = ascii ''2024-01-03_00-00-00_c.mdx'', gh_path = ascii ''posts/c'', gh_type = File\<rparr>,
       \<lparr>gh_name = ascii ''2024-01-02_00-00-00_a.mdx'', gh_path = ascii ''posts/a'', gh_type = File\<rparr>],
      [\<lparr>gh_name = ascii ''2024-01-01_00-00-00_b.mdx'', gh_path = ascii ''posts/b'', gh_type = File\<rparr>],
      []]"
  (is "_ \<and> mdxFiles ?F = ?S \<and> ?C = ?S \<and> ?H1 \<and> \<not> ?H2 \<and> ?PG")
proof -
  have h: "(0::int) < 2" by simp
  have m: "mdxFiles ?F = ?S" by code_simp
  then have n: "nat \<lceil>real (length (mdxFiles ?F)) / real_of_int 2\<rceil> = 2" by simp
  note T = getPosts_pages_partition [OF h, where files = ?F and load = "\<lambda>file. None"
      and names = "[]" and load' = "\<lambda>file. None"]
  have c: "?C = ?S"
    using T [where page = 1 and k = 0, unfolded n, unfolded m] by (rule conjunct1)
  have h1: ?H1
    using T [where page = 1 and k = 0, THEN conjunct2, THEN conjunct1]
    unfolding m by simp
  have h2: "\<not> ?H2"
    using T [where page = 2 and k = 0, THEN conjunct2, THEN conjunct1]
    unfolding m by simp
  have pg: "paginatedFiles ?F (int (Suc k)) 2 = take 2 (drop (k * 2) ?S)" for k
    using T [where page = 1 and k = k, unfolded m] by simp
  have ?PG
    by (simp only: list.map pg) simp
  with h m c h1 h2 show ?thesis by (intro conjI)
qed

lemma compare_names_dated:
  assumes "extractDateFromFileName a = Some (Some ta)" "extractDateFromFileName b = Some (Some tb)"
  shows "compare_names a b = Some (tb - ta)"
  using assms by (simp add: compare_names_def)

lemma compare_names_undated:
  assumes "extractDateFromFileName a = None \<or> extractDateFromFileName b = None"
  shows "compare_names a b = Some (localeCompare b a)"
  using assms by (auto simp: compare_names_def split: option.splits)

text \<open>
  Claim C2: the comparator orders two names with a timestamp prefix newest first, falls
  back to the reversed name comparison when a name has no parseable timestamp, and is
  a total order. The code misses the names whose prefix matches the pattern but is no
  date (month 13 below): \<open>extractDateFromFileName\<close> returns an invalid date, which is
  truthy, so the comparator returns \<^verbatim>\<open>NaN\<close> instead of falling back to the names. Such
  a name then compares as equal to two names that are themselves strictly ordered, so the
  comparator is not transitive.
\<close>

theorem compare_names_invalid_date:
  "extractDateFromFileName (ascii ''2024-13-01_00-00-00_x.mdx'') = Some None \<and>
   compare_names (ascii ''2024-01-02_00-00-00_a.mdx'') (ascii ''2024-13-01_00-00-00_x.mdx'') = None \<and>
   sort_compare compare_names (ascii ''2024-01-02_00-00-00_a.mdx'') (ascii ''2024-13-01_00-00-00_x.mdx'') = 0 \<and>
   sort_compare compare_names (ascii ''2024-13-01_00-00-00_x.mdx'') (ascii ''2024-01-01_00-00-00_b.mdx'') = 0 \<and>
   sort_compare compare_names (ascii ''2024-01-02_00-00-00_a.mdx'') (ascii ''2024-01-01_00-00-00_b.mdx'') < 0 \<and>
   localeCompare (ascii ''2024-13-01_00-00-00_x.mdx'') (ascii ''2024-01-02_00-00-00_a.mdx'') = 1"
  by code_simp

text \<open>
  With the stable insertion sort of this model, the listing below stays as it is: the
  older post comes before the newer one.
\<close>

lemma localFiles_invalid_date:
  "localFiles [ascii ''2024-01-01_00-00-00_b.mdx'', ascii ''2024-13-01_00-00-00_x.mdx'',
               ascii ''2024-01-02_00-00-00_a.mdx'']
   = [ascii ''2024-01-01_00-00-00_b.mdx'', ascii ''2024-13-01_00-00-00_x.mdx'',
      ascii ''2024-01-02_00-00-00_a.mdx'']"
  by code_simp

section \<open>Persistent cache\<close>

lemma js_sort_key:
  "js_sort (\<lambda>a b. Some (f a - f b)) xs = sort_key f xs" for f :: "'a \<Rightarrow> int"
proof -
  have ins: "insert_sorted (\<lambda>a b. Some (f a - f b)) x ys = insort_key f x ys" for x ys
    by (induction ys) (simp_all add: sort_compare_def)
  show ?thesis
    unfolding js_sort_def sort_key_def
    by (induction xs) (simp_all add: ins)
qed

lemma removeItem_filter: "removeItem store k = filter (\<lambda>p. fst p \<notin> {k}) store"
  by (induction store) (auto simp: removeItem_def)

lemma remove_keys_filter: "remove_keys ks store = filter (\<lambda>p. fst p \<notin> set ks) store"
proof (induction ks arbitrary: store)
  case Nil
  then show ?case by (simp add: remove_keys_def)
next
  case (Cons k ks)
  have "remove_keys (k # ks) store = remove_keys ks (removeItem store k)"
    by (simp add: remove_keys_def)
  also have "\<dots> = filter (\<lambda>p. fst p \<notin> set ks) (filter (\<lambda>p. fst p \<notin> {k}) store)"
    by (simp only: Cons removeItem_filter)
  also have "\<dots> = filter (\<lambda>p. fst p \<notin> set (k # ks)) store"
    by (auto intro: filter_cong)
  finally show ?case .
qed


lemma collect_entries_filter:
  "collect_entries (filter (\<lambda>p. Q (fst p)) store) = filter (\<lambda>p. Q (fst p)) (collect_entries store)"
  by (induction store) (auto simp: collect_entries_def split: item.splits)

lemma collect_entries_remove:
  "collect_entries (filter (\<lambda>p. fst p \<notin> K) store) = filter (\<lambda>p. fst p \<notin> K) (collect_entries store)"
  by (rule collect_entries_filter [of "\<lambda>k. k \<notin> K"])

lemma in_collect_entries:
  "(k, e) \<in> set (collect_entries store) \<longleftrightarrow> (k, Stored e) \<in> set store \<and> startsWith k cache_prefix"
  by (induction store) (auto simp: collect_entries_def split: item.splits)

lemma keys_collect_entries: "set (map fst (collect_entries store)) \<subseteq> set (map fst store)"
proof
  fix k assume "k \<in> set (map fst (collect_entries store))"
  then obtain e where "(k, e) \<in> set (collect_entries store)" by auto
  then have "(k, Stored e) \<in> set store" by (simp add: in_collect_entries)
  then show "k \<in> set (map fst store)" by force
qed

lemma distinct_collect_entries:
  "distinct (map fst store) \<Longrightarrow> distinct (map fst (collect_entries store))"
proof (induction store)
  case Nil
  then show ?case by (simp add: collect_entries_def)
next
  case (Cons p store)
  obtain k v where p: "p = (k, v)" by (cases p)
  have "k \<notin> fst ` set (collect_entries store)"
    using Cons.prems keys_collect_entries [of store] p by auto
  with Cons p show ?case
    by (auto simp: collect_entries_def split: item.splits)
qed

lemma length_collect_entries_filter:
  "length (collect_entries (filter P store)) \<le> length (collect_entries store)"
  by (induction store) (auto simp: collect_entries_def split: item.splits)

lemma not_corrupt_entry:
  assumes "distinct (map fst store)" "(k, e) \<in> set (collect_entries store)"
  shows "(k, Corrupt) \<notin> set store"
proof
  assume "(k, Corrupt) \<in> set store"
  moreover have "(k, Stored e) \<in> set store" using assms(2) by (simp add: in_collect_entries)
  ultimately show False using assms(1) by (metis eq_key_imp_eq_value item.distinct(1))
qed

lemma entry_unique:
  assumes "distinct (map fst store)"
    "(k, e) \<in> set (collect_entries store)" "(k, e') \<in> set (collect_entries store)"
  shows "e = e'"
  using distinct_collect_entries [OF assms(1)] assms(2,3) by (metis eq_key_imp_eq_value)

lemma collect_entries_cleanup:
  assumes d: "distinct (map fst store)"
  shows "collect_entries (cleanup True now aggressive store) =
         (let V = valid_entries now store;
              r = (if aggressive then length V div 2
                   else if length V > maxSize then length V - maxSize else 0)
          in filter (\<lambda>p. fst p \<notin> set (map fst (take r (sort_key (\<lambda>p. pc_timestamp (snd p)) V)))) V)"
proof -
  define E where "E = collect_entries store"
  define V where "V = valid_entries now store"
  define corrupted where
    "corrupted = map fst (filter (\<lambda>(k, v). startsWith k cache_prefix \<and> v = Corrupt) store)"
  define expired where "expired = map fst (filter (\<lambda>(k, e). now > pc_expiresAt e) E)"
  define store' where "store' = remove_keys expired (remove_keys corrupted store)"
  have V: "V = filter (\<lambda>(k, e). now \<le> pc_expiresAt e) E"
    by (simp add: V_def E_def valid_entries_def)
  have "collect_entries store' =
        filter (\<lambda>p. fst p \<notin> set expired) (filter (\<lambda>p. fst p \<notin> set corrupted) E)"
    unfolding store'_def remove_keys_filter E_def by (simp only: collect_entries_remove)
  also have "\<dots> = filter (\<lambda>p. fst p \<notin> set expired \<and> fst p \<notin> set corrupted) E"
    by (simp add: conj_commute)
  also have "\<dots> = V"
    unfolding V
  proof (rule filter_cong [OF refl])
    fix p assume p: "p \<in> set E"
    obtain k e where ke: "p = (k, e)" by (cases p)
    have 1: "k \<notin> set corrupted"
      using not_corrupt_entry [OF d] p ke unfolding corrupted_def E_def by auto
    have 2: "k \<in> set expired \<longleftrightarrow> now > pc_expiresAt e"
    proof
      assume "k \<in> set expired"
      then obtain e' where "(k, e') \<in> set E" "now > pc_expiresAt e'"
        unfolding expired_def by auto
      with entry_unique [OF d] p ke show "now > pc_expiresAt e" unfolding E_def by blast
    next
      assume "now > pc_expiresAt e"
      with p ke show "k \<in> set expired" unfolding expired_def by force
    qed
    from 1 2 ke
    show "(fst p \<notin> set expired \<and> fst p \<notin> set corrupted) = (case p of (k, e) \<Rightarrow> now \<le> pc_expiresAt e)"
      by auto
  qed
  finally have s': "collect_entries store' = V" .
  have c: "cleanup True now aggressive store =
        (if aggressive \<or> length V > maxSize
         then remove_keys (map fst (take (if aggressive then length V div 2 else length V - maxSize)
                  (sort_key (\<lambda>p. pc_timestamp (snd p)) V))) store'
         else store')"
    by (simp add: cleanup_def Let_def js_sort_key V E_def corrupted_def expired_def store'_def)
  show ?thesis
  proof (cases "aggressive \<or> length V > maxSize")
    case True
    then have "collect_entries (cleanup True now aggressive store) =
        filter (\<lambda>p. fst p \<notin> set (map fst (take (if aggressive then length V div 2 else length V - maxSize)
                  (sort_key (\<lambda>p. pc_timestamp (snd p)) V)))) V"
      unfolding c remove_keys_filter by (simp only: collect_entries_remove s' if_True)
    with True show ?thesis by (auto simp: V_def Let_def)
  next
    case False
    then have "collect_entries (cleanup True now aggressive store) = V"
      unfolding c by (simp add: s')
    with False show ?thesis by (simp add: V_def Let_def)
  qed
qed

lemma distinct_valid_entries:
  "distinct (map fst store) \<Longrightarrow> distinct (map fst (valid_entries now store))"
  unfolding valid_entries_def
  by (intro distinct_map_filter distinct_collect_entries)

lemma filter_taken:
  assumes d: "distinct (map fst V)" and m: "mset S = mset V"
  shows "mset (filter (\<lambda>p. fst p \<notin> set (map fst (take r S))) V) = mset (drop r S)"
proof -
  let ?P = "\<lambda>p. fst p \<notin> set (map fst (take r S))"
  have dS: "distinct (map fst S)"
    using d m by (metis mset_map mset_eq_imp_distinct_iff)
  have "mset (filter ?P V) = mset (filter ?P S)"
    using m by (metis mset_filter)
  also have "filter ?P S = filter ?P (take r S) @ filter ?P (drop r S)"
    by (metis append_take_drop_id filter_append)
  also have "filter ?P (take r S) = []" by (auto simp: filter_empty_conv)
  also have "filter ?P (drop r S) = drop r S"
  proof -
    have "distinct (map fst (take r S) @ map fst (drop r S))"
      using dS by (metis append_take_drop_id map_append)
    then have "set (map fst (take r S)) \<inter> set (map fst (drop r S)) = {}" by simp
    then show ?thesis by (auto simp: filter_id_conv)
  qed
  finally show ?thesis by simp
qed

lemma valid_entries_idem:
  "filter (\<lambda>(k, e). now \<le> pc_expiresAt e) (valid_entries now store) = valid_entries now store"
  by (simp add: valid_entries_def)

lemma cleanup_survivors:
  fixes store :: "'d local_storage" and now :: int and aggressive :: bool
  defines "V \<equiv> valid_entries now store"
  defines "r \<equiv> (if aggressive then length V div 2
                  else if length V > maxSize then length V - maxSize else 0)"
  assumes d: "distinct (map fst store)"
  shows "valid_entries now (cleanup True now aggressive store) = collect_entries (cleanup True now aggressive store)"
    and "mset (collect_entries (cleanup True now aggressive store)) = mset (drop r (sort_key (\<lambda>p. pc_timestamp (snd p)) V))"
proof -
  let ?S = "sort_key (\<lambda>p. pc_timestamp (snd p)) V"
  let ?P = "\<lambda>p. fst p \<notin> set (map fst (take r ?S))"
  have ce: "collect_entries (cleanup True now aggressive store) = filter ?P V"
    using collect_entries_cleanup [OF d, of now aggressive] by (simp add: V_def r_def Let_def)
  have "filter (\<lambda>(k, e). now \<le> pc_expiresAt e) (filter ?P V) = filter ?P (filter (\<lambda>(k, e). now \<le> pc_expiresAt e) V)"
    by (simp add: conj_commute)
  also have "\<dots> = filter ?P V" unfolding V_def by (simp only: valid_entries_idem)
  finally show "valid_entries now (cleanup True now aggressive store) = collect_entries (cleanup True now aggressive store)"
    unfolding valid_entries_def [of now "cleanup True now aggressive store"] ce .
  have "distinct (map fst V)" unfolding V_def using d by (rule distinct_valid_entries)
  moreover have "mset ?S = mset V" by simp
  ultimately show "mset (collect_entries (cleanup True now aggressive store)) = mset (drop r ?S)"
    unfolding ce by (rule filter_taken)
qed

lemma cleanup_count:
  assumes d: "distinct (map fst store)"
  shows "length (collect_entries (cleanup True now aggressive store)) =
         (if aggressive then length (valid_entries now store) - length (valid_entries now store) div 2
          else min maxSize (length (valid_entries now store)))"
proof -
  have "length (collect_entries (cleanup True now aggressive store)) =
        size (mset (collect_entries (cleanup True now aggressive store)))" by simp
  also note cleanup_survivors(2) [OF d]
  finally show ?thesis by (auto simp: min_def)
qed

lemma cleanup_keeps_newest:
  assumes d: "distinct (map fst store)"
    and x: "x \<in> set (valid_entries now store)" "x \<notin> set (collect_entries (cleanup True now aggressive store))"
    and y: "y \<in> set (collect_entries (cleanup True now aggressive store))"
  shows "pc_timestamp (snd x) \<le> pc_timestamp (snd y)"
proof -
  define V where "V = valid_entries now store"
  define r where "r = (if aggressive then length V div 2
                  else if length V > maxSize then length V - maxSize else 0)"
  let ?f = "\<lambda>p. pc_timestamp (snd p)"
  let ?S = "sort_key ?f V"
  have m: "mset (collect_entries (cleanup True now aggressive store)) = mset (drop r ?S)"
    using cleanup_survivors(2) [OF d, of now aggressive] by (simp add: V_def r_def)
  then have s: "set (collect_entries (cleanup True now aggressive store)) = set (drop r ?S)"
    by (rule mset_eq_setD)
  have "x \<in> set ?S" using x(1) by (simp add: V_def)
  then have "x \<in> set (take r ?S) \<union> set (drop r ?S)"
    by (metis append_take_drop_id set_append)
  with x(2) s have xt: "x \<in> set (take r ?S)" by simp
  have yd: "y \<in> set (drop r ?S)" using y s by simp
  have "sorted (map ?f (take r ?S) @ map ?f (drop r ?S))"
    by (metis append_take_drop_id map_append sorted_sort_key)
  then show ?thesis using xt yd by (auto simp: sorted_append)
qed

lemma cleanup_filter: "\<exists>K. cleanup window now aggressive store = filter (\<lambda>p. fst p \<notin> K) store"
proof (cases window)
  case False
  then have "cleanup window now aggressive store = filter (\<lambda>p. fst p \<notin> {}) store"
    by (simp add: cleanup_def)
  then show ?thesis ..
next
  case True
  have r2: "remove_keys a (remove_keys b s) = filter (\<lambda>p. fst p \<notin> set a \<union> set b) s"
    for a b :: "jsstring list" and s :: "'a local_storage"
    unfolding remove_keys_filter by (auto intro: filter_cong)
  have r3: "remove_keys c (remove_keys a (remove_keys b s)) = filter (\<lambda>p. fst p \<notin> set c \<union> (set a \<union> set b)) s"
    for a b c :: "jsstring list" and s :: "'a local_storage"
    unfolding r2 unfolding remove_keys_filter by (auto intro: filter_cong)
  define E where "E = collect_entries store"
  define V where "V = filter (\<lambda>(k, e). now \<le> pc_expiresAt e) E"
  define b where "b = map fst (filter (\<lambda>(k, v). startsWith k cache_prefix \<and> v = Corrupt) store)"
  define a where "a = map fst (filter (\<lambda>(k, e). now > pc_expiresAt e) E)"
  define c where "c = map fst (take (if aggressive then length V div 2 else length V - maxSize)
                     (js_sort (\<lambda>a b. Some (pc_timestamp (snd a) - pc_timestamp (snd b))) V))"
  define cond where "cond \<longleftrightarrow> aggressive \<or> length V > maxSize"
  have "cleanup window now aggressive store =
       (if cond then remove_keys c (remove_keys a (remove_keys b store))
        else remove_keys a (remove_keys b store))"
    using True by (simp add: cleanup_def Let_def E_def V_def a_def b_def c_def cond_def)
  note eq = this
  show ?thesis
  proof (cases cond)
    case True
    with eq have "cleanup window now aggressive store =
        filter (\<lambda>p. fst p \<notin> set c \<union> (set a \<union> set b)) store"
      by (simp only: if_True r3)
    then show ?thesis ..
  next
    case False
    with eq have "cleanup window now aggressive store =
        filter (\<lambda>p. fst p \<notin> set a \<union> set b) store"
      by (simp only: if_False r2)
    then show ?thesis ..
  qed
qed

lemma distinct_cleanup:
  "distinct (map fst store) \<Longrightarrow> distinct (map fst (cleanup window now aggressive store))"
  using cleanup_filter [of window now aggressive store] by (auto intro: distinct_map_filter)

lemma collect_entries_setItem_other:
  "\<not> startsWith k cache_prefix \<Longrightarrow> collect_entries (setItem store k v) = collect_entries store"
  by (induction store) (auto simp: collect_entries_def setItem_def split: item.splits)

lemma inv_filter:
  "distinct (map fst store) \<and> length (collect_entries store) \<le> maxSize \<Longrightarrow>
   distinct (map fst (filter (\<lambda>p. fst p \<notin> K) store)) \<and> length (collect_entries (filter (\<lambda>p. fst p \<notin> K) store)) \<le> maxSize"
  using length_collect_entries_filter [of "\<lambda>p. fst p \<notin> K" store]
  by (auto intro: distinct_map_filter)

lemma length_valid_entries_le: "length (valid_entries now store) \<le> length (collect_entries store)"
  by (simp add: valid_entries_def)

lemma inv_set_entry:
  assumes i: "distinct (map fst store) \<and> length (collect_entries store) \<le> maxSize"
  shows "distinct (map fst (set_entry True full now key d ttl etag store)) \<and> length (collect_entries (set_entry True full now key d ttl etag store)) \<le> maxSize"
proof -
  from i have d: "distinct (map fst store)" by simp
  show ?thesis
  proof (cases full)
    case True
    have "length (collect_entries (cleanup True now True store)) \<le> length (valid_entries now store)"
      by (simp add: cleanup_count [OF d])
    also have "\<dots> \<le> length (collect_entries store)" by (rule length_valid_entries_le)
    finally show ?thesis using i True d
      by (simp add: set_entry_def distinct_cleanup)
  next
    case False
    let ?s = "setItem store (getKey key)
                (Stored \<lparr>pc_data = d, pc_timestamp = now, pc_etag = etag, pc_expiresAt = now + ttl\<rparr>)"
    have ds: "distinct (map fst ?s)" using d by (simp add: setItem_def distinct_update)
    have "length (collect_entries (cleanup True now False ?s)) \<le> maxSize"
      by (simp add: cleanup_count [OF ds])
    with ds False show ?thesis
      by (simp add: set_entry_def distinct_cleanup)
  qed
qed

lemma inv_apply_op:
  assumes i: "distinct (map fst store) \<and> length (collect_entries store) \<le> maxSize"
  shows "distinct (map fst (apply_op store op)) \<and> length (collect_entries (apply_op store op)) \<le> maxSize"
proof (cases op)
  case (Set full now key d ttl etag)
  from i show ?thesis unfolding Set apply_op.simps by (rule inv_set_entry)
next
  case (Get now key)
  have "distinct (map fst (removeItem store (getKey key))) \<and> length (collect_entries (removeItem store (getKey key))) \<le> maxSize"
    unfolding removeItem_filter by (rule inv_filter [OF i])
  with i show ?thesis
    by (auto simp: Get get_entry_def delete_entry_def split: option.splits item.splits)
next
  case (Delete key)
  show ?thesis
    unfolding Delete apply_op.simps delete_entry_def removeItem_filter if_not_P [OF not_not [THEN iffD2, OF TrueI]]
    by (rule inv_filter [OF i])
next
  case Clear
  show ?thesis
    unfolding Clear apply_op.simps clear_def remove_keys_filter if_not_P [OF not_not [THEN iffD2, OF TrueI]]
    by (rule inv_filter [OF i])
next
  case (Other_set k v)
  from i show ?thesis
    by (auto simp: Other_set collect_entries_setItem_other) (simp add: setItem_def distinct_update)
next
  case (Other_remove k)
  have "distinct (map fst (removeItem store k)) \<and> length (collect_entries (removeItem store k)) \<le> maxSize"
    unfolding removeItem_filter by (rule inv_filter [OF i])
  with i show ?thesis by (simp add: Other_remove)
qed

lemma inv_run:
  "distinct (map fst store) \<and> length (collect_entries store) \<le> maxSize \<Longrightarrow>
   distinct (map fst (run ops store)) \<and> length (collect_entries (run ops store)) \<le> maxSize"
  unfolding run_def
proof (induction ops arbitrary: store)
  case Nil
  then show ?case by simp
next
  case (Cons op ops)
  from inv_apply_op [OF Cons.prems, of op] show ?case
    unfolding foldl_Cons by (rule Cons.IH)
qed

lemma get_entry_hit_unchanged:
  "fst (get_entry True t k store) = Some e \<Longrightarrow> snd (get_entry True t k store) = store"
  by (auto simp: get_entry_def split: option.splits item.splits if_splits)

text \<open>
  Claim C8: after every set on a storage that only the operations of the cache (and
  writes outside its prefix) have touched, at most 50 valid entries remain, and no
  expired entry remains. When the write succeeds, the cleanup keeps all valid entries if
  there are at most 50 and exactly 50 otherwise, and every entry it evicts has a write
  timestamp no later than that of every entry it keeps. A hit of \<open>get_entry\<close> leaves the
  storage as it is, so reading an entry does not protect it.
\<close>

theorem set_entry_capacity:
  assumes "distinct (map fst initial)" and "collect_entries initial = []"
  shows
    "(let store = run ops initial;
          after = set_entry True full now key d ttl etag store
      in length (valid_entries now after) \<le> maxSize \<and>
         collect_entries after = valid_entries now after \<and>
         (\<forall>t k e. fst (get_entry True t k store) = Some e \<longrightarrow> snd (get_entry True t k store) = store) \<and>
         (\<not> full \<longrightarrow>
            (let V = valid_entries now
                       (setItem store (getKey key)
                          (Stored \<lparr>pc_data = d, pc_timestamp = now, pc_etag = etag,
                                    pc_expiresAt = now + ttl\<rparr>))
             in length (valid_entries now after) = min maxSize (length V) \<and>
                set (valid_entries now after) \<subseteq> set V \<and>
                (\<forall>x\<in>set V. \<forall>y\<in>set (valid_entries now after).
                   x \<notin> set (valid_entries now after) \<longrightarrow>
                   pc_timestamp (snd x) \<le> pc_timestamp (snd y)))))"
proof -
  define store where "store = run ops initial"
  define after where "after = set_entry True full now key d ttl etag store"
  have i: "distinct (map fst store) \<and> length (collect_entries store) \<le> maxSize"
    unfolding store_def using assms by (intro inv_run) simp
  then have ds: "distinct (map fst store)" ..
  have ia: "distinct (map fst after) \<and> length (collect_entries after) \<le> maxSize"
    unfolding after_def using i by (rule inv_set_entry)
  let ?w = "setItem store (getKey key)
              (Stored \<lparr>pc_data = d, pc_timestamp = now, pc_etag = etag, pc_expiresAt = now + ttl\<rparr>)"
  have dw: "distinct (map fst ?w)" using ds by (simp add: setItem_def distinct_update)
  have va: "valid_entries now after = collect_entries after"
  proof (cases full)
    case True
    then show ?thesis unfolding after_def set_entry_def using cleanup_survivors(1) [OF ds] by simp
  next
    case False
    then show ?thesis unfolding after_def set_entry_def using cleanup_survivors(1) [OF dw] by simp
  qed
  have 1: "length (valid_entries now after) \<le> maxSize" using ia va by simp
  have 4: "length (valid_entries now after) = min maxSize (length (valid_entries now ?w)) \<and>
           set (valid_entries now after) \<subseteq> set (valid_entries now ?w) \<and>
           (\<forall>x\<in>set (valid_entries now ?w). \<forall>y\<in>set (valid_entries now after).
               x \<notin> set (valid_entries now after) \<longrightarrow> pc_timestamp (snd x) \<le> pc_timestamp (snd y))"
    if nf: "\<not> full"
  proof -
    have a: "after = cleanup True now False ?w" using nf by (simp add: after_def set_entry_def)
    have l: "length (valid_entries now after) = min maxSize (length (valid_entries now ?w))"
      unfolding va unfolding a by (simp add: cleanup_count [OF dw])
    have "set (collect_entries after) \<subseteq> set (valid_entries now ?w)"
    proof -
      obtain r where "mset (collect_entries after) =
          mset (drop r (sort_key (\<lambda>p. pc_timestamp (snd p)) (valid_entries now ?w)))"
        unfolding a using cleanup_survivors(2) [OF dw] by blast
      then have "set (collect_entries after) =
          set (drop r (sort_key (\<lambda>p. pc_timestamp (snd p)) (valid_entries now ?w)))"
        by (rule mset_eq_setD)
      also have "\<dots> \<subseteq> set (sort_key (\<lambda>p. pc_timestamp (snd p)) (valid_entries now ?w))"
        by (rule set_drop_subset)
      finally show ?thesis by simp
    qed
    then have s: "set (valid_entries now after) \<subseteq> set (valid_entries now ?w)" by (simp add: va)
    have o: "pc_timestamp (snd x) \<le> pc_timestamp (snd y)"
      if "x \<in> set (valid_entries now ?w)" "y \<in> set (valid_entries now after)"
         "x \<notin> set (valid_entries now after)" for x y
      by (rule cleanup_keeps_newest [OF dw that(1) that(3) [unfolded va, unfolded a] that(2) [unfolded va, unfolded a]])
    from o have "\<forall>x\<in>set (valid_entries now ?w). \<forall>y\<in>set (valid_entries now after).
               x \<notin> set (valid_entries now after) \<longrightarrow> pc_timestamp (snd x) \<le> pc_timestamp (snd y)"
      by (intro ballI impI)
    with l s show ?thesis by (intro conjI)
  qed
  show ?thesis
    unfolding Let_def store_def [symmetric] after_def [symmetric]
  proof (intro conjI allI impI)
    show "length (valid_entries now after) \<le> maxSize" by (rule 1)
    show "collect_entries after = valid_entries now after" by (rule va [symmetric])
    show "snd (get_entry True t k store) = store" if "fst (get_entry True t k store) = Some e" for t k e
      using that by (rule get_entry_hit_unchanged)
    show "length (valid_entries now after) = min maxSize (length (valid_entries now ?w))" if "\<not> full"
      using 4 [OF that] by (rule conjunct1)
    show "set (valid_entries now after) \<subseteq> set (valid_entries now ?w)" if "\<not> full"
      using 4 [OF that] by (elim conjE)
    show "\<forall>x\<in>set (valid_entries now ?w). \<forall>y\<in>set (valid_entries now after).
               x \<notin> set (valid_entries now after) \<longrightarrow> pc_timestamp (snd x) \<le> pc_timestamp (snd y)"
      if "\<not> full"
      using 4 [OF that] by (elim conjE)
  qed
qed

theorem set_entry_capacity_witness:
  "distinct (map fst [(ascii ''feed-watcher-config'', Empty :: nat item)]) \<and>
   collect_entries [(ascii ''feed-watcher-config'', Empty :: nat item)] = [] \<and>
   length (valid_entries 30 (set_entry True False 30 (ascii ''b'') (2::nat) 100 None
      (run [Set False 10 (ascii ''a'') 1 100 None, Get 20 (ascii ''a'')]
         [(ascii ''feed-watcher-config'', Empty)]))) \<le> maxSize \<and>
   map fst (valid_entries 30 (set_entry True False 30 (ascii ''b'') (2::nat) 100 None
      (run [Set False 10 (ascii ''a'') 1 100 None, Get 20 (ascii ''a'')]
         [(ascii ''feed-watcher-config'', Empty)])))
     = [getKey (ascii ''a''), getKey (ascii ''b'')]"
proof -
  let ?I = "[(ascii ''feed-watcher-config'', Empty :: nat item)]"
  have 1: "distinct (map fst ?I)" by simp
  have 2: "collect_entries ?I = []" by code_simp
  have 3: "\<not> False" by simp
  note T = set_entry_capacity [OF 1 2,
      of "[Set False 10 (ascii ''a'') 1 100 None, Get 20 (ascii ''a'')]" False 30 "ascii ''b''" 2 100 None,
      unfolded Let_def]
  from T have 4: "length (valid_entries 30 (set_entry True False 30 (ascii ''b'') (2::nat) 100 None
      (run [Set False 10 (ascii ''a'') 1 100 None, Get 20 (ascii ''a'')] ?I))) \<le> maxSize"
    by (rule conjunct1)
  have 5: "map fst (valid_entries 30 (set_entry True False 30 (ascii ''b'') (2::nat) 100 None
      (run [Set False 10 (ascii ''a'') 1 100 None, Get 20 (ascii ''a'')] ?I)))
     = [getKey (ascii ''a''), getKey (ascii ''b'')]"
    by code_simp
  from 1 2 4 5 show ?thesis by (intro conjI)
qed














section \<open>Rate-limit gate\<close>

lemma cache_lookup_counters:
  assumes "cache_lookup env endpoint duration st = (hit, pe, st1)"
  shows "rateLimitRemaining st1 = rateLimitRemaining st \<and> rateLimitReset st1 = rateLimitReset st \<and>
         requests st1 = requests st"
  using assms
  by (auto simp: cache_lookup_def Let_def split: option.splits if_splits prod.splits)

lemma cache_lookup_fetch:
  "cache_lookup (env\<lparr>env_fetch := other\<rparr>) endpoint duration st = cache_lookup env endpoint duration st"
proof -
  have "env_now (env\<lparr>env_fetch := other\<rparr>) = env_now env"
       "env_window (env\<lparr>env_fetch := other\<rparr>) = env_window env" by simp_all
  then show ?thesis unfolding cache_lookup_def by (simp only:)
qed

text \<open>
  Claim C6: when a request misses both cache tiers while the tracked remaining budget
  is at most 1 and the tracked reset time is in the future, \<open>makeRequest\<close> fails with the
  rate-limit error, issues no network call, and its outcome does not depend on the
  network at all.
\<close>

theorem makeRequest_rate_limit_gate:
  assumes "fst (cache_lookup env endpoint (duration_of cacheDuration) st) = None"
    and "rateLimitRemaining st \<le> 1"
    and "env_now env < rateLimitReset st * 1000"
  shows "fst (makeRequest env endpoint cacheDuration st) = Inl (GitHubAPIError Rate_limit_exceeded None) \<and>
         requests (snd (makeRequest env endpoint cacheDuration st)) = requests st \<and>
         makeRequest (env\<lparr>env_fetch := other\<rparr>) endpoint cacheDuration st =
           makeRequest env endpoint cacheDuration st"
proof -
  obtain hit pe st1 where l: "cache_lookup env endpoint (duration_of cacheDuration) st = (hit, pe, st1)"
    by (cases "cache_lookup env endpoint (duration_of cacheDuration) st") auto
  with assms(1) have hit: "hit = None" by simp
  from cache_lookup_counters [OF l] assms(2,3)
  have g: "rateLimitRemaining st1 \<le> 1 \<and> env_now env < rateLimitReset st1 * 1000"
    and r: "requests st1 = requests st" by simp_all
  have m: "makeRequest env endpoint cacheDuration st = (Inl (GitHubAPIError Rate_limit_exceeded None), st1)"
    using l hit g by (simp add: makeRequest_def)
  have "makeRequest (env\<lparr>env_fetch := other\<rparr>) endpoint cacheDuration st
        = (Inl (GitHubAPIError Rate_limit_exceeded None), st1)"
    using l hit g by (simp add: makeRequest_def cache_lookup_fetch)
  with m r show ?thesis by simp
qed

theorem makeRequest_rate_limit_gate_witness:
  "fst (cache_lookup
          \<lparr>env_window = True, env_now = 1000000, env_later = 1000200, env_full = False,
           env_fetch = (\<lambda>url h. None :: nat response option)\<rparr>
          (ascii ''/repos/o/r/contents/posts'') (duration_of (Some CACHE_DURATION))
          \<lparr>memory = Map.empty, rateLimitRemaining = 1, rateLimitReset = 2000,
           localStorage = [], requests = []\<rparr>) = None \<and>
   (1 :: int) \<le> 1 \<and> (1000000 :: int) < 2000 * 1000 \<and>
   fst (makeRequest
          \<lparr>env_window = True, env_now = 1000000, env_later = 1000200, env_full = False,
           env_fetch = (\<lambda>url h. None :: nat response option)\<rparr>
          (ascii ''/repos/o/r/contents/posts'') (Some CACHE_DURATION)
          \<lparr>memory = Map.empty, rateLimitRemaining = 1, rateLimitReset = 2000,
           localStorage = [], requests = []\<rparr>) = Inl (GitHubAPIError Rate_limit_exceeded None) \<and>
   requests (snd (makeRequest
          \<lparr>env_window = True, env_now = 1000000, env_later = 1000200, env_full = False,
           env_fetch = (\<lambda>url h. None :: nat response option)\<rparr>
          (ascii ''/repos/o/r/contents/posts'') (Some CACHE_DURATION)
          \<lparr>memory = Map.empty, rateLimitRemaining = 1, rateLimitReset = 2000,
           localStorage = [], requests = []\<rparr>)) = []"
proof -
  let ?env = "\<lparr>env_window = True, env_now = 1000000, env_later = 1000200, env_full = False,
           env_fetch = (\<lambda>url h. None :: nat response option)\<rparr>"
  let ?st = "\<lparr>memory = Map.empty, rateLimitRemaining = 1, rateLimitReset = 2000,
           localStorage = ([] :: nat local_storage), requests = []\<rparr>"
  have 1: "fst (cache_lookup ?env (ascii ''/repos/o/r/contents/posts'') (duration_of (Some CACHE_DURATION)) ?st) = None"
    by (simp add: cache_lookup_def get_entry_def getItem_def)
  have 2: "rateLimitRemaining ?st \<le> 1" by simp
  have 3: "env_now ?env < rateLimitReset ?st * 1000" by simp
  from makeRequest_rate_limit_gate [OF 1 2 3] 1 show ?thesis by simp
qed

section \<open>Saving the configuration\<close>

text \<open>
  Claim C9, as stated: a repository URL that does not match the pattern is rejected
  before persistence. \<open>saveConfig\<close> has no such check: the URL below does not parse, and
  it is written to the storage, with owner and repo left as they were.
\<close>

theorem saveConfig_persists_invalid_url:
  "parseRepositoryUrl (ascii ''not a repository'') = None \<and>
   saveConfig True False
     \<lparr>p_repositoryUrl = Some (ascii ''not a repository''), p_owner = None, p_repo = None,
      p_postsPath = None\<rparr> None
   = Some (Config_json
       \<lparr>p_repositoryUrl = Some (ascii ''not a repository''), p_owner = Some (ascii ''monokaijs''),
        p_repo = Some (ascii ''j2team-backup''),
        p_postsPath = Some (ascii ''posts/j2team-community-backup'')\<rparr>)"
  by code_simp

text \<open>
  Claim C9, amended: \<open>saveConfig\<close> persists the repository URL it is given, whatever it
  is. When the URL matches the pattern, owner and repo are derived from it and persisted
  with it, on every save; when it does not match, owner and repo are those of the merged
  configuration. (Rejecting a URL is left to the caller, through
  \<open>validateRepositoryUrl\<close>.)
\<close>

theorem saveConfig_derives_owner_repo:
  assumes "p_repositoryUrl config = Some url" and "url \<noteq> []"
  shows "\<exists>saved. saveConfig True False config stored = Some (Config_json saved) \<and>
           p_repositoryUrl saved = Some url \<and>
           (case parseRepositoryUrl url of
              Some (owner', repo') \<Rightarrow> p_owner saved = Some owner' \<and> p_repo saved = Some repo'
            | None \<Rightarrow>
                p_owner saved = Some (owner (spread (getConfig True stored) config)) \<and>
                p_repo saved = Some (repo (spread (getConfig True stored) config)))"
  using assms
  by (auto simp: saveConfig_def Let_def to_json_def spread_def split: option.splits)

theorem saveConfig_derives_owner_repo_witness:
  "p_repositoryUrl \<lparr>p_repositoryUrl = Some (ascii ''https://github.com/acme/site.git''),
      p_owner = None, p_repo = None, p_postsPath = Some (ascii ''posts'')\<rparr>
     = Some (ascii ''https://github.com/acme/site.git'') \<and>
   ascii ''https://github.com/acme/site.git'' \<noteq> [] \<and>
   parseRepositoryUrl (ascii ''https://github.com/acme/site.git'') = Some (ascii ''acme'', ascii ''site'') \<and>
   (\<exists>saved. saveConfig True False
        \<lparr>p_repositoryUrl = Some (ascii ''https://github.com/acme/site.git''),
         p_owner = None, p_repo = None, p_postsPath = Some (ascii ''posts'')\<rparr> None
        = Some (Config_json saved) \<and>
      p_repositoryUrl saved = Some (ascii ''https://github.com/acme/site.git'') \<and>
      p_owner saved = Some (ascii ''acme'') \<and> p_repo saved = Some (ascii ''site''))"
proof -
  let ?c = "\<lparr>p_repositoryUrl = Some (ascii ''https://github.com/acme/site.git''),
      p_owner = None, p_repo = None, p_postsPath = Some (ascii ''posts'')\<rparr>"
  have 1: "p_repositoryUrl ?c = Some (ascii ''https://github.com/acme/site.git'')" by simp
  have 2: "ascii ''https://github.com/acme/site.git'' \<noteq> []" by (simp add: ascii_def)
  have 3: "parseRepositoryUrl (ascii ''https://github.com/acme/site.git'') = Some (ascii ''acme'', ascii ''site'')"
    by code_simp
  from saveConfig_derives_owner_repo [OF 1 2, of None] obtain saved where
    "saveConfig True False ?c None = Some (Config_json saved)"
    "p_repositoryUrl saved = Some (ascii ''https://github.com/acme/site.git'')"
    "p_owner saved = Some (ascii ''acme'') \<and> p_repo saved = Some (ascii ''site'')"
    unfolding 3 by auto
  with 1 2 3 show ?thesis by blast
qed

end
